theory Spec2Isabelle
  imports Main "HOL-Library.Word" "HOL-Library.Multiset" "HOL-Library.Signed_Division"
begin

unbundle bit_operations_syntax

section \<open>The SCI16 animation compositor (GfxAnimate)\<close>

text \<open>
  A shallow embedding of \<^verbatim>\<open>GfxAnimate\<close> (the kAnimate implementation of the SCI
  engine): the cast list is read from script objects, sorted, resolved against the view
  resources, drawn in several passes driven by the signal bits, and finally written back.
  Member functions become functions on an explicit state; calls on the collaborators
  (painter, palette, ports, event manager) are recorded in a trace, script callbacks are
  state transformers supplied by the environment, \<^verbatim>\<open>error()\<close> is a value of a sum type,
  and the two list walks over the script heap, which need not end, are partial functions.
\<close>

subsection \<open>Machine integers and handles\<close>

type_synonym int16 = "16 word"
type_synonym uint16 = "16 word"
type_synonym byte = "8 word"

text \<open>Conversion of a C \<^verbatim>\<open>int\<close> expression to \<^verbatim>\<open>int16\<close> (keeps the low 16 bits).\<close>

definition to_int16 :: "int \<Rightarrow> int16" where
  "to_int16 i = word_of_int i"

text \<open>
  Modelled from the spec: \<^verbatim>\<open>reg_t\<close> (sci/engine/vm_types.h) is not among the sources; it
  is the opaque handle of the object store, a segment and an offset, and a selector read
  as a value is the offset of the stored handle.
\<close>

datatype reg_t = Reg (getSegment: uint16) (getOffset: uint16)

definition NULL_REG :: reg_t where
  "NULL_REG = Reg 0 0"

definition isNull :: "reg_t \<Rightarrow> bool" where
  "isNull r = (r = NULL_REG)"

definition make_reg :: "uint16 \<Rightarrow> uint16 \<Rightarrow> reg_t" where
  "make_reg seg off = Reg seg off"

subsection \<open>Signal bits\<close>

text \<open>
  Modelled from the spec: the enumerations \<^verbatim>\<open>ViewSignals\<close> and \<^verbatim>\<open>ViewScaleSignals\<close>
  and the screen masks are declared in headers that are not among the sources
  (sci/graphics/animate.h, sci/graphics/screen.h). The glossary names the signal bits;
  each is one bit of the 16-bit signal word, at the position the engine gives it.
\<close>

definition kSignalStopUpdate :: uint16 where "kSignalStopUpdate = 0x0001"
definition kSignalViewUpdated :: uint16 where "kSignalViewUpdated = 0x0002"
definition kSignalNoUpdate :: uint16 where "kSignalNoUpdate = 0x0004"
definition kSignalHidden :: uint16 where "kSignalHidden = 0x0008"
definition kSignalFixedPriority :: uint16 where "kSignalFixedPriority = 0x0010"
definition kSignalAlwaysUpdate :: uint16 where "kSignalAlwaysUpdate = 0x0020"
definition kSignalForceUpdate :: uint16 where "kSignalForceUpdate = 0x0040"
definition kSignalRemoveView :: uint16 where "kSignalRemoveView = 0x0080"
definition kSignalFrozen :: uint16 where "kSignalFrozen = 0x0100"
definition kSignalIgnoreActor :: uint16 where "kSignalIgnoreActor = 0x4000"
definition kSignalDisposeMe :: uint16 where "kSignalDisposeMe = 0x8000"

definition kScaleSignalDoScaling :: uint16 where "kScaleSignalDoScaling = 0x0001"
definition kScaleSignalGlobalScaling :: uint16 where "kScaleSignalGlobalScaling = 0x0002"
definition kScaleSignalHoyle4SpecialHandling :: uint16 where
  "kScaleSignalHoyle4SpecialHandling = 0x0004"

definition GFX_SCREEN_MASK_VISUAL :: byte where "GFX_SCREEN_MASK_VISUAL = 1"
definition GFX_SCREEN_MASK_PRIORITY :: byte where "GFX_SCREEN_MASK_PRIORITY = 2"
definition GFX_SCREEN_MASK_CONTROL :: byte where "GFX_SCREEN_MASK_CONTROL = 4"
definition GFX_SCREEN_MASK_ALL :: byte where
  "GFX_SCREEN_MASK_ALL = GFX_SCREEN_MASK_VISUAL OR GFX_SCREEN_MASK_PRIORITY OR GFX_SCREEN_MASK_CONTROL"

lemmas signal_defs =
  kSignalStopUpdate_def kSignalViewUpdated_def kSignalNoUpdate_def kSignalHidden_def
  kSignalFixedPriority_def kSignalAlwaysUpdate_def kSignalForceUpdate_def
  kSignalRemoveView_def kSignalFrozen_def kSignalIgnoreActor_def kSignalDisposeMe_def

lemmas scale_signal_defs =
  kScaleSignalDoScaling_def kScaleSignalGlobalScaling_def kScaleSignalHoyle4SpecialHandling_def

lemmas mask_defs =
  GFX_SCREEN_MASK_VISUAL_def GFX_SCREEN_MASK_PRIORITY_def GFX_SCREEN_MASK_CONTROL_def
  GFX_SCREEN_MASK_ALL_def

text \<open>The C test \<^verbatim>\<open>if (signal & mask)\<close>.\<close>

definition tst :: "uint16 \<Rightarrow> uint16 \<Rightarrow> bool" where
  "tst sig m = (sig AND m \<noteq> 0)"

text \<open>
  Modelled from the spec: the engine versions (\<^verbatim>\<open>SciVersion\<close>, sci/sci.h) are not among
  the sources; they are ordered, and only the three thresholds the compositor compares
  against are named.
\<close>

definition SCI_VERSION_1_EGA_ONLY :: nat where "SCI_VERSION_1_EGA_ONLY = 4"
definition SCI_VERSION_1_EARLY :: nat where "SCI_VERSION_1_EARLY = 5"
definition SCI_VERSION_1_1 :: nat where "SCI_VERSION_1_1 = 8"

subsection \<open>Rectangles, entries, the script heap\<close>

text \<open>\<^verbatim>\<open>Common::Rect\<close>: four 16-bit coordinates.\<close>

record rect =
  r_top :: int16
  r_left :: int16
  r_bottom :: int16
  r_right :: int16

text \<open>
  Modelled from the spec: \<^verbatim>\<open>AnimateEntry\<close> is declared in sci/graphics/animate.h, which
  is not among the sources; the fields are those the code reads and writes, with the
  widths of the locals they are copied to and from (the cast entry of the data model).
  The coordinates are named \<open>entry_x\<close>, \<open>entry_y\<close>, \<open>entry_z\<close>.
\<close>

record AnimateEntry =
  givenOrderNo :: int16
  object :: reg_t
  viewId :: nat
  loopNo :: int16
  celNo :: int16
  paletteNo :: int16
  entry_x :: int16
  entry_y :: int16
  entry_z :: int16
  priority :: int16
  signal :: uint16
  scaleSignal :: uint16
  scaleX :: int16
  scaleY :: int16
  celRect :: rect
  showBitsFlag :: bool
  castHandle :: reg_t

datatype selector =
    SEL_view | SEL_loop | SEL_cel | SEL_palette | SEL_x | SEL_y | SEL_z | SEL_priority
  | SEL_signal | SEL_scaleSignal | SEL_scaleX | SEL_scaleY | SEL_maxScale | SEL_vanishingY
  | SEL_underBits | SEL_nsLeft | SEL_nsTop | SEL_nsRight | SEL_nsBottom
  | SEL_lsLeft | SEL_lsTop | SEL_lsRight | SEL_lsBottom

text \<open>A list node of the script heap and the list header (\<^verbatim>\<open>Node\<close>, \<^verbatim>\<open>List\<close>).\<close>

record Node =
  pred_n :: reg_t
  succ :: reg_t
  nvalue :: reg_t

record List_t =
  first :: reg_t
  last_n :: reg_t

text \<open>\<^verbatim>\<open>Port\<close>: the drawing context; only its rectangle and origin are used.\<close>

record Port =
  port_rect :: rect
  port_top :: int16
  port_left :: int16

text \<open>Calls on the collaborators, in the order they are made.\<close>

datatype call =
    BitsSave rect byte reg_t
  | BitsRestore reg_t
  | BitsFree reg_t
  | BitsShow rect
  | DrawCel nat int16 int16 rect int16 int16 int16 int16 uint16
  | FillRect rect byte int16 int16 int16
  | BeginUpdate
  | EndUpdate
  | PalVaryDelay
  | PalVaryUpdate
  | CursorHide
  | CursorShow
  | TransitionsDoit rect
  | EventUpdateScreen
  | InvokeDoit reg_t
  | InvokeDelete reg_t

text \<open>
  The ways a call ends without returning. The first three are the fatal \<^verbatim>\<open>error()\<close>
  calls. \<^verbatim>\<open>NullListDereference\<close> is not raised by the code: it is the read of
  \<^verbatim>\<open>list->first\<close> through a null \<^verbatim>\<open>List\<close> pointer, after which the program does not
  go on.
\<close>

datatype error =
  NonListParameter | InvalidNodeReference | GlobalScalingPanic | NullListDereference

record state =
  nodes :: "reg_t \<rightharpoonup> Node"
  lists :: "reg_t \<rightharpoonup> List_t"
  objects :: "reg_t \<Rightarrow> selector \<Rightarrow> reg_t"
  globalFastCast :: reg_t
  globalCurrentRoom :: reg_t
  abortScriptProcessing :: bool
  throttleTrigger :: bool
  picNotValid :: byte
  cursorVisible :: bool
  curPort :: Port
  alist :: "AnimateEntry list"
  lastCastData :: "AnimateEntry list"
  trace :: "call list"

text \<open>
  \<^verbatim>\<open>GfxView\<close> as the compositor uses it: the counts, the cel height, the scalability
  flag and the three rectangle computations.
\<close>

record view =
  getLoopCount :: int16
  getCelCount :: "int16 \<Rightarrow> int16"
  getHeight :: "int16 \<Rightarrow> int16 \<Rightarrow> int16"
  isScaleable :: bool
  getCelRect :: "int16 \<Rightarrow> int16 \<Rightarrow> int16 \<Rightarrow> int16 \<Rightarrow> int16 \<Rightarrow> rect"
  getCelScaledRect :: "int16 \<Rightarrow> int16 \<Rightarrow> int16 \<Rightarrow> int16 \<Rightarrow> int16 \<Rightarrow> int16 \<Rightarrow> int16 \<Rightarrow> rect"
  getCelSpecialHoyle4Rect :: "int16 \<Rightarrow> int16 \<Rightarrow> int16 \<Rightarrow> int16 \<Rightarrow> int16 \<Rightarrow> rect \<Rightarrow> rect"

text \<open>
  What a call of the compositor is given from outside: the engine version and game, the
  fast-cast capability found at start-up, the view cache, the port manager's picture
  window and priority bands, the handle the painter returns from \<^verbatim>\<open>bitsSave\<close>, what a
  picture transition does, and the two script methods \<^verbatim>\<open>doit\<close> and \<^verbatim>\<open>delete\<close>.
\<close>

record env =
  sciVersion :: nat
  isHoyle4 :: bool
  fastCastEnabled :: bool
  getView :: "nat \<Rightarrow> view"
  picWind :: Port
  kernelCoordinateToPriority :: "int16 \<Rightarrow> int16"
  kernelPriorityToCoordinate :: "int16 \<Rightarrow> int16"
  bitsSaveHandle :: "rect \<Rightarrow> byte \<Rightarrow> state \<Rightarrow> reg_t"
  transitionsDoit :: "rect \<Rightarrow> state \<Rightarrow> state"
  doit :: "reg_t \<Rightarrow> state \<Rightarrow> state"
  delete_method :: "reg_t \<Rightarrow> state \<Rightarrow> state"

subsection \<open>The object store and the painter\<close>

text \<open>A call on a collaborator is appended to the trace.\<close>

definition emit :: "call \<Rightarrow> state \<Rightarrow> state" where
  "emit c s = s\<lparr>trace := trace s @ [c]\<rparr>"

text \<open>
  Modelled from the spec: the selector access of sci/engine/selector.h is not among the
  sources; it is the object store's \<open>readField\<close> and \<open>writeField\<close> by field name. A
  selector holds a handle; read as a value it is the handle's offset, and a value is
  written as the handle of segment 0 with that offset.
\<close>

definition readSelector :: "state \<Rightarrow> reg_t \<Rightarrow> selector \<Rightarrow> reg_t" where
  "readSelector s obj sel = objects s obj sel"

definition readSelectorValue :: "state \<Rightarrow> reg_t \<Rightarrow> selector \<Rightarrow> uint16" where
  "readSelectorValue s obj sel = getOffset (readSelector s obj sel)"

definition writeSelector :: "reg_t \<Rightarrow> selector \<Rightarrow> reg_t \<Rightarrow> state \<Rightarrow> state" where
  "writeSelector obj sel v s = s\<lparr>objects := (objects s)(obj := (objects s obj)(sel := v))\<rparr>"

definition writeSelectorValue :: "reg_t \<Rightarrow> selector \<Rightarrow> uint16 \<Rightarrow> state \<Rightarrow> state" where
  "writeSelectorValue obj sel v s = writeSelector obj sel (make_reg 0 v) s"

text \<open>
  Modelled from the spec: \<^verbatim>\<open>SegManager::lookupNode\<close> is not among the sources; it is the
  node-by-handle lookup with an allow-missing mode. The null handle is no node; a handle
  that is not a live node is no node in the allow-missing mode and a fatal error
  otherwise.
\<close>

definition lookupNode :: "state \<Rightarrow> reg_t \<Rightarrow> bool \<Rightarrow> error + Node option" where
  "lookupNode s addr stopOnDiscarded =
     (if isNull addr then Inr None
      else case nodes s addr of
             Some n \<Rightarrow> Inr (Some n)
           | None \<Rightarrow> if stopOnDiscarded then Inl InvalidNodeReference else Inr None)"

text \<open>
  Modelled from the spec: \<^verbatim>\<open>SegManager::lookupList\<close> is not among the sources; a handle
  that is not a list is reported as no list, the null pointer.
\<close>

definition lookupList :: "state \<Rightarrow> reg_t \<Rightarrow> List_t option" where
  "lookupList s addr = lists s addr"

text \<open>
  \<^verbatim>\<open>GfxPaint16::bitsSave\<close>: the painter returns the handle of the saved background, which
  the environment determines, and the call is recorded with it.
\<close>

definition bitsSave :: "env \<Rightarrow> rect \<Rightarrow> byte \<Rightarrow> state \<Rightarrow> reg_t \<times> state" where
  "bitsSave en r m s =
     (let h = bitsSaveHandle en r m s in (h, emit (BitsSave r m h) s))"

text \<open>
  Modelled from the spec: \<^verbatim>\<open>CLIP<int16>\<close> (common/util.h) is not among the sources; it
  brings a signed 16-bit value into the range from \<open>amin\<close> to \<open>amax\<close>.
\<close>

definition CLIP :: "int16 \<Rightarrow> int16 \<Rightarrow> int16 \<Rightarrow> int16" where
  "CLIP v amin amax = (if v <s amin then amin else if amax <s v then amax else v)"

subsection \<open>Invoking the cast's \<^verbatim>\<open>doit\<close> methods\<close>

text \<open>
  \<^verbatim>\<open>GfxAnimate::invoke\<close>. The loop walks the nodes of the script heap while the scripts
  it calls may change them, so it need not end: it is a partial function, \<open>None\<close> when
  it does not return. The two tests on \<open>curNode\<close> at the end of the loop body are the
  source's: after a call the node is looked up again in the allow-missing mode.
\<close>

partial_function (option) invoke_loop ::
  "env \<Rightarrow> reg_t \<Rightarrow> Node option \<Rightarrow> state \<Rightarrow> (error + bool \<times> state) option" where
  "invoke_loop en curAddress curNode s =
     (case curNode of
        None \<Rightarrow> Some (Inr (True, s))
      | Some node \<Rightarrow>
          let curObject = nvalue node in
          if fastCastEnabled en \<and> \<not> isNull (globalFastCast s) then Some (Inr (False, s))
          else
            let sig = readSelectorValue s curObject SEL_signal in
            if \<not> tst sig kSignalFrozen then
              (let s1 = doit en curObject (emit (InvokeDoit curObject) s) in
               if abortScriptProcessing s1 then Some (Inr (True, s1))
               else
                 case lookupNode s1 curAddress False of
                   Inl e \<Rightarrow> Some (Inl e)
                 | Inr None \<Rightarrow> invoke_loop en curAddress None s1
                 | Inr (Some node1) \<Rightarrow>
                     (case lookupNode s1 (succ node1) True of
                        Inl e \<Rightarrow> Some (Inl e)
                      | Inr next \<Rightarrow> invoke_loop en (succ node1) next s1))
            else
              (case lookupNode s (succ node) True of
                 Inl e \<Rightarrow> Some (Inl e)
               | Inr next \<Rightarrow> invoke_loop en (succ node) next s))"

definition invoke :: "env \<Rightarrow> List_t \<Rightarrow> state \<Rightarrow> (error + bool \<times> state) option" where
  "invoke en lst s =
     (case lookupNode s (first lst) True of
        Inl e \<Rightarrow> Some (Inl e)
      | Inr curNode \<Rightarrow> invoke_loop en (first lst) curNode s)"

subsection \<open>Building and sorting the list\<close>

definition sortHelper :: "AnimateEntry \<Rightarrow> AnimateEntry \<Rightarrow> bool" where
  "sortHelper entry1 entry2 =
     (if entry_y entry1 = entry_y entry2 then
        (if entry_z entry1 = entry_z entry2 then givenOrderNo entry1 <s givenOrderNo entry2
         else entry_z entry1 <s entry_z entry2)
      else entry_y entry1 <s entry_y entry2)"

text \<open>
  Modelled from the spec: \<^verbatim>\<open>Common::sort\<close> (common/algorithm.h) is not among the sources.
  The sorter's contract is a comparison sort driven by one strict-weak-order comparator;
  it is modelled as the insertion of each element, from the back, before the first
  element that does not come before it.
\<close>

fun sort_insert :: "('a \<Rightarrow> 'a \<Rightarrow> bool) \<Rightarrow> 'a \<Rightarrow> 'a list \<Rightarrow> 'a list" where
  "sort_insert cmp v [] = [v]"
| "sort_insert cmp v (w # ws) =
     (if cmp w v then w # sort_insert cmp v ws else v # w # ws)"

definition common_sort :: "('a \<Rightarrow> 'a \<Rightarrow> bool) \<Rightarrow> 'a list \<Rightarrow> 'a list" where
  "common_sort cmp vs = foldr (sort_insert cmp) vs []"

text \<open>The body of the fill loop of \<^verbatim>\<open>makeSortedList\<close>: one entry from one object.\<close>

definition readEntry :: "env \<Rightarrow> state \<Rightarrow> reg_t \<Rightarrow> int16 \<Rightarrow> AnimateEntry" where
  "readEntry en s curObject listNr =
     (let scs = (if SCI_VERSION_1_1 \<le> sciVersion en
                 then readSelectorValue s curObject SEL_scaleSignal else 0);
          scaled = (SCI_VERSION_1_1 \<le> sciVersion en \<and> tst scs kScaleSignalDoScaling)
      in \<lparr> givenOrderNo = listNr,
           object = curObject,
           viewId = unat (readSelectorValue s curObject SEL_view),
           loopNo = readSelectorValue s curObject SEL_loop,
           celNo = readSelectorValue s curObject SEL_cel,
           paletteNo = readSelectorValue s curObject SEL_palette,
           entry_x = readSelectorValue s curObject SEL_x,
           entry_y = readSelectorValue s curObject SEL_y,
           entry_z = readSelectorValue s curObject SEL_z,
           priority = readSelectorValue s curObject SEL_priority,
           signal = readSelectorValue s curObject SEL_signal,
           scaleSignal = scs,
           scaleX = (if scaled then readSelectorValue s curObject SEL_scaleX else 128),
           scaleY = (if scaled then readSelectorValue s curObject SEL_scaleY else 128),
           celRect = \<lparr> r_top = 0, r_left = 0, r_bottom = 0, r_right = 0 \<rparr>,
           showBitsFlag = False,
           castHandle = NULL_REG \<rparr>)"

text \<open>
  The fill loop: \<open>listNr\<close> is an \<^verbatim>\<open>int16\<close> counter, the walk follows \<open>succ\<close> until the
  null handle and need not end on a cyclic list.
\<close>

partial_function (option) fillList ::
  "env \<Rightarrow> state \<Rightarrow> Node option \<Rightarrow> int16 \<Rightarrow> AnimateEntry list \<Rightarrow> (error + AnimateEntry list) option"
  where
  "fillList en s curNode listNr acc =
     (case curNode of
        None \<Rightarrow> Some (Inr acc)
      | Some node \<Rightarrow>
          (case lookupNode s (succ node) True of
             Inl e \<Rightarrow> Some (Inl e)
           | Inr next \<Rightarrow>
               fillList en s next (listNr + 1) (acc @ [readEntry en s (nvalue node) listNr])))"

text \<open>
  \<^verbatim>\<open>makeSortedList\<close>. Its parameter is the \<^verbatim>\<open>List\<close> pointer as the caller passes it,
  which \<^verbatim>\<open>kernelAnimate\<close> does not test after its second lookup: \<open>None\<close> is the null
  pointer, and the first statement reads \<^verbatim>\<open>list->first\<close>.
\<close>

definition makeSortedList ::
  "env \<Rightarrow> List_t option \<Rightarrow> state \<Rightarrow> (error + state) option" where
  "makeSortedList en list s =
     (case list of
        None \<Rightarrow> Some (Inl NullListDereference)
      | Some lst \<Rightarrow>
          (case lookupNode s (first lst) True of
             Inl e \<Rightarrow> Some (Inl e)
           | Inr curNode \<Rightarrow>
               (case fillList en s curNode 0 [] of
                  None \<Rightarrow> None
                | Some (Inl e) \<Rightarrow> Some (Inl e)
                | Some (Inr es) \<Rightarrow>
                    Some (Inr (s\<lparr>alist := common_sort sortHelper es, lastCastData := []\<rparr>)))))"

subsection \<open>Resolving loop, cel, scale and rectangle (\<^verbatim>\<open>fill\<close>)\<close>

definition adjustInvalidCels :: "view \<Rightarrow> AnimateEntry \<Rightarrow> state \<Rightarrow> AnimateEntry \<times> state" where
  "adjustInvalidCels v it s =
     (let viewLoopCount = getLoopCount v;
          (it1, s1) =
            (if viewLoopCount \<le>s loopNo it then
               (let it' = it\<lparr>loopNo := 0\<rparr>
                in (it', writeSelectorValue (object it') SEL_loop (loopNo it') s))
             else if loopNo it <s 0 then (it\<lparr>loopNo := viewLoopCount - 1\<rparr>, s)
             else (it, s));
          viewCelCount = getCelCount v (loopNo it1)
      in if viewCelCount \<le>s celNo it1 then
           (let it' = it1\<lparr>celNo := 0\<rparr>
            in (it', writeSelectorValue (object it') SEL_cel (celNo it') s1))
         else if celNo it1 <s 0 then (it1\<lparr>celNo := viewCelCount - 1\<rparr>, s1)
         else (it1, s1))"

text \<open>
  \<^verbatim>\<open>applyGlobalScaling\<close>. The operands are \<^verbatim>\<open>int16\<close>; each product and quotient is
  computed in \<^verbatim>\<open>int\<close> (no overflow there: the factors are 16-bit) and stored back into an
  \<^verbatim>\<open>int16\<close>. \<^verbatim>\<open>>> 7\<close> is the arithmetic shift, \<^verbatim>\<open>/\<close> is C division, which truncates
  towards zero (\<open>sdiv\<close>).
\<close>

definition applyGlobalScaling ::
  "view \<Rightarrow> AnimateEntry \<Rightarrow> state \<Rightarrow> error + AnimateEntry \<times> state" where
  "applyGlobalScaling v entry s =
     (let maxScale = readSelectorValue s (object entry) SEL_maxScale;
          celHeight = getHeight v (loopNo entry) (celNo entry);
          maxCelHeight = to_int16 (drop_bit 7 (sint maxScale * sint celHeight));
          globalVar2 = globalCurrentRoom s;
          vanishingY = readSelectorValue s globalVar2 SEL_vanishingY;
          fixedPortY = to_int16 (sint (r_bottom (port_rect (curPort s))) - sint vanishingY);
          fixedEntryY0 = to_int16 (sint (entry_y entry) - sint vanishingY);
          fixedEntryY = (if fixedEntryY0 = 0 then 1 else fixedEntryY0)
      in if celHeight = 0 \<or> fixedPortY = 0 then Inl GlobalScalingPanic
         else
           (let scaleY1 = to_int16 ((sint maxCelHeight * sint fixedEntryY) sdiv sint fixedPortY);
                scaleY2 = to_int16 ((sint scaleY1 * 128) sdiv sint celHeight);
                entry' = entry\<lparr>scaleY := scaleY2, scaleX := scaleY2\<rparr>
            in Inr (entry',
                    writeSelectorValue (object entry') SEL_scaleY (scaleY entry')
                      (writeSelectorValue (object entry') SEL_scaleX (scaleX entry') s))))"

definition processViewScaling ::
  "view \<Rightarrow> AnimateEntry \<Rightarrow> state \<Rightarrow> error + AnimateEntry \<times> state" where
  "processViewScaling v it s =
     (if \<not> isScaleable v then Inr (it\<lparr>scaleSignal := 0, scaleX := 128, scaleY := 128\<rparr>, s)
      else if tst (scaleSignal it) kScaleSignalDoScaling then
        (if tst (scaleSignal it) kScaleSignalGlobalScaling then applyGlobalScaling v it s
         else Inr (it, s))
      else Inr (it, s))"

text \<open>
  Modelled from the spec: \<^verbatim>\<open>GfxCompare::getNSRect\<close> and \<^verbatim>\<open>setNSRect\<close> are not among the
  sources; they read and publish the object's tracked bounding box, the four \<open>ns\<close>
  selectors.
\<close>

definition getNSRect :: "state \<Rightarrow> reg_t \<Rightarrow> rect" where
  "getNSRect s obj =
     \<lparr> r_top = readSelectorValue s obj SEL_nsTop, r_left = readSelectorValue s obj SEL_nsLeft,
       r_bottom = readSelectorValue s obj SEL_nsBottom, r_right = readSelectorValue s obj SEL_nsRight \<rparr>"

definition setNSRect :: "reg_t \<Rightarrow> rect \<Rightarrow> state \<Rightarrow> state" where
  "setNSRect obj r s =
     writeSelectorValue obj SEL_nsBottom (r_bottom r)
       (writeSelectorValue obj SEL_nsRight (r_right r)
         (writeSelectorValue obj SEL_nsTop (r_top r)
           (writeSelectorValue obj SEL_nsLeft (r_left r) s)))"

definition setNsRect :: "env \<Rightarrow> view \<Rightarrow> AnimateEntry \<Rightarrow> state \<Rightarrow> AnimateEntry \<times> state" where
  "setNsRect en v it s =
     (if tst (scaleSignal it) kScaleSignalDoScaling then
        (let it1 = it\<lparr>celRect := getCelScaledRect v (loopNo it) (celNo it)
                          (entry_x it) (entry_y it) (entry_z it) (scaleX it) (scaleY it)\<rparr>;
             shouldSetNsRect = \<not> (tst (signal it1) kSignalHidden \<and> \<not> tst (signal it1) kSignalAlwaysUpdate)
         in (it1, if shouldSetNsRect then setNSRect (object it1) (celRect it1) s else s))
      else if isHoyle4 en \<and> tst (scaleSignal it) kScaleSignalHoyle4SpecialHandling then
        (it\<lparr>celRect := getCelSpecialHoyle4Rect v (loopNo it) (celNo it)
                 (entry_x it) (entry_y it) (entry_z it) (getNSRect s (object it))\<rparr>, s)
      else
        (let it1 = it\<lparr>celRect := getCelRect v (loopNo it) (celNo it)
                          (entry_x it) (entry_y it) (entry_z it)\<rparr>
         in (it1, setNSRect (object it1) (celRect it1) s)))"

text \<open>One iteration of the loop of \<^verbatim>\<open>fill\<close>; the counter is a \<^verbatim>\<open>byte\<close>.\<close>

definition fill_step ::
  "env \<Rightarrow> AnimateEntry \<Rightarrow> state \<Rightarrow> byte \<Rightarrow> error + AnimateEntry \<times> state \<times> byte" where
  "fill_step en it s old_picNotValid =
     (let v = getView en (viewId it);
          (it1, s1) = adjustInvalidCels v it s
      in case processViewScaling v it1 s1 of
           Inl e \<Rightarrow> Inl e
         | Inr (it2, s2) \<Rightarrow>
             (let (it3, s3) = setNsRect en v it2 s2;
                  (it4, s4) =
                    (if \<not> tst (signal it3) kSignalFixedPriority then
                       (let it' = it3\<lparr>priority := kernelCoordinateToPriority en (entry_y it3)\<rparr>
                        in (it', writeSelectorValue (object it') SEL_priority (priority it') s3))
                     else (it3, s3))
              in if tst (signal it4) kSignalNoUpdate then
                   (let cnt =
                          (if tst (signal it4) (kSignalForceUpdate OR kSignalViewUpdated)
                              \<or> (tst (signal it4) kSignalHidden \<and> \<not> tst (signal it4) kSignalRemoveView)
                              \<or> (\<not> tst (signal it4) kSignalHidden \<and> tst (signal it4) kSignalRemoveView)
                              \<or> tst (signal it4) kSignalAlwaysUpdate
                           then old_picNotValid + 1 else old_picNotValid)
                    in Inr (it4\<lparr>signal := signal it4 AND NOT kSignalStopUpdate\<rparr>, s4, cnt))
                 else
                   (let cnt =
                          (if tst (signal it4) kSignalStopUpdate \<or> tst (signal it4) kSignalAlwaysUpdate
                           then old_picNotValid + 1 else old_picNotValid)
                    in Inr (it4\<lparr>signal := signal it4 AND NOT kSignalForceUpdate\<rparr>, s4, cnt))))"

fun fill_loop ::
  "env \<Rightarrow> AnimateEntry list \<Rightarrow> state \<Rightarrow> byte \<Rightarrow> error + AnimateEntry list \<times> state \<times> byte"
  where
  "fill_loop en [] s cnt = Inr ([], s, cnt)"
| "fill_loop en (it # its) s cnt =
     (case fill_step en it s cnt of
        Inl e \<Rightarrow> Inl e
      | Inr (it', s', cnt') \<Rightarrow>
          (case fill_loop en its s' cnt' of
             Inl e \<Rightarrow> Inl e
           | Inr (its', s'', cnt'') \<Rightarrow> Inr (it' # its', s'', cnt'')))"

definition fill :: "env \<Rightarrow> state \<Rightarrow> byte \<Rightarrow> error + state \<times> byte" where
  "fill en s old_picNotValid =
     (case fill_loop en (alist s) s old_picNotValid of
        Inl e \<Rightarrow> Inl e
      | Inr (es, s', cnt) \<Rightarrow> Inr (s'\<lparr>alist := es\<rparr>, cnt))"

subsection \<open>The passes over the list\<close>

text \<open>
  A loop over the list that changes the entry under the iterator and the state: forwards
  (\<^verbatim>\<open>begin()\<close> to \<^verbatim>\<open>end()\<close>) and backwards (\<^verbatim>\<open>reverse_begin()\<close> down to the first).
\<close>

fun forEach ::
  "(AnimateEntry \<Rightarrow> state \<Rightarrow> AnimateEntry \<times> state) \<Rightarrow> AnimateEntry list \<Rightarrow> state
     \<Rightarrow> AnimateEntry list \<times> state" where
  "forEach f [] s = ([], s)"
| "forEach f (it # its) s =
     (let (it', s') = f it s; (its', s'') = forEach f its s' in (it' # its', s''))"

definition forEachReverse ::
  "(AnimateEntry \<Rightarrow> state \<Rightarrow> AnimateEntry \<times> state) \<Rightarrow> AnimateEntry list \<Rightarrow> state
     \<Rightarrow> AnimateEntry list \<times> state" where
  "forEachReverse f its s = (let (its', s') = forEach f (rev its) s in (rev its', s'))"

text \<open>The priority-marker strip of an entry that is not \<^verbatim>\<open>IgnoreActor\<close>.\<close>

definition fillPriorityStrip :: "env \<Rightarrow> AnimateEntry \<Rightarrow> state \<Rightarrow> state" where
  "fillPriorityStrip en it s =
     (let r = celRect it;
          r' = r\<lparr>r_top := CLIP (kernelPriorityToCoordinate en (priority it) - 1)
                              (r_top r) (r_bottom r - 1)\<rparr>
      in emit (FillRect r' GFX_SCREEN_MASK_CONTROL 0 0 15) s)"

text \<open>
  Modelled from the spec: the declaration of \<^verbatim>\<open>GfxPaint16::drawCel\<close>
  (sci/graphics/paint16.h) is not among the sources. The call for an entry has its view,
  loop and cel, its rectangle, priority, palette and scale; only \<^verbatim>\<open>drawCels\<close> passes the
  scale signal, the other callers leave the last argument out, which is taken as 0.
\<close>

definition drawCel :: "AnimateEntry \<Rightarrow> uint16 \<Rightarrow> call" where
  "drawCel it scs =
     DrawCel (viewId it) (loopNo it) (celNo it) (celRect it) (priority it) (paletteNo it)
       (scaleX it) (scaleY it) scs"

text \<open>\<^verbatim>\<open>update\<close>, first loop (backwards): remove all no-update cels.\<close>

definition update_remove :: "AnimateEntry \<Rightarrow> state \<Rightarrow> AnimateEntry \<times> state" where
  "update_remove it s =
     (if tst (signal it) kSignalNoUpdate then
        (let (it1, s1) =
               (if \<not> tst (signal it) kSignalRemoveView then
                  (let bitsHandle = readSelector s (object it) SEL_underBits;
                       (it', s') =
                         (if picNotValid s \<noteq> 1
                          then (it\<lparr>showBitsFlag := True\<rparr>, emit (BitsRestore bitsHandle) s)
                          else (it, emit (BitsFree bitsHandle) s))
                   in (it', writeSelectorValue (object it') SEL_underBits 0 s'))
                else (it, s));
             it2 = it1\<lparr>signal := signal it1 AND NOT kSignalForceUpdate\<rparr>;
             it3 = (if tst (signal it2) kSignalViewUpdated
                    then it2\<lparr>signal := signal it2 AND NOT (kSignalViewUpdated OR kSignalNoUpdate)\<rparr>
                    else it2)
         in (it3, s1))
      else if tst (signal it) kSignalStopUpdate then
        (let it1 = it\<lparr>signal := signal it AND NOT kSignalStopUpdate\<rparr>
         in (it1\<lparr>signal := signal it1 OR kSignalNoUpdate\<rparr>, s))
      else (it, s))"

text \<open>Second loop: draw always-update cels.\<close>

definition update_always :: "env \<Rightarrow> AnimateEntry \<Rightarrow> state \<Rightarrow> AnimateEntry \<times> state" where
  "update_always en it s =
     (if tst (signal it) kSignalAlwaysUpdate then
        (let s1 = emit (drawCel it 0) s;
             it1 = it\<lparr>showBitsFlag := True\<rparr>;
             it2 = it1\<lparr>signal := signal it1 AND NOT (kSignalStopUpdate OR kSignalViewUpdated
                                     OR kSignalNoUpdate OR kSignalForceUpdate)\<rparr>
         in if \<not> tst (signal it2) kSignalIgnoreActor then (it2, fillPriorityStrip en it2 s1)
            else (it2, s1))
      else (it, s))"

text \<open>Third loop: save the background of all no-update cels.\<close>

definition update_save :: "env \<Rightarrow> AnimateEntry \<Rightarrow> state \<Rightarrow> AnimateEntry \<times> state" where
  "update_save en it s =
     (if tst (signal it) kSignalNoUpdate then
        (if tst (signal it) kSignalHidden then (it\<lparr>signal := signal it OR kSignalRemoveView\<rparr>, s)
         else
           (let it1 = it\<lparr>signal := signal it AND NOT kSignalRemoveView\<rparr>;
                (bitsHandle, s1) =
                  (if tst (signal it1) kSignalIgnoreActor
                   then bitsSave en (celRect it1)
                          (GFX_SCREEN_MASK_VISUAL OR GFX_SCREEN_MASK_PRIORITY) s
                   else bitsSave en (celRect it1) GFX_SCREEN_MASK_ALL s)
            in (it1, writeSelector (object it1) SEL_underBits bitsHandle s1)))
      else (it, s))"

text \<open>Fourth loop: draw the no-update cels.\<close>

definition update_draw :: "env \<Rightarrow> AnimateEntry \<Rightarrow> state \<Rightarrow> AnimateEntry \<times> state" where
  "update_draw en it s =
     (if tst (signal it) kSignalNoUpdate \<and> \<not> tst (signal it) kSignalHidden then
        (let s1 = emit (drawCel it 0) s;
             it1 = it\<lparr>showBitsFlag := True\<rparr>
         in if \<not> tst (signal it1) kSignalIgnoreActor then (it1, fillPriorityStrip en it1 s1)
            else (it1, s1))
      else (it, s))"

definition update :: "env \<Rightarrow> state \<Rightarrow> state" where
  "update en s =
     (let (l1, s1) = forEachReverse update_remove (alist s) s;
          (l2, s2) = forEach (update_always en) l1 s1;
          (l3, s3) = forEach (update_save en) l2 s2;
          (l4, s4) = forEach (update_draw en) l3 s3
      in s4\<lparr>alist := l4\<rparr>)"

definition drawCels_step :: "env \<Rightarrow> AnimateEntry \<Rightarrow> state \<Rightarrow> AnimateEntry \<times> state" where
  "drawCels_step en it s =
     (if \<not> tst (signal it) (kSignalNoUpdate OR kSignalHidden OR kSignalAlwaysUpdate) then
        (let (bitsHandle, s1) = bitsSave en (celRect it) GFX_SCREEN_MASK_ALL s;
             s2 = writeSelector (object it) SEL_underBits bitsHandle s1;
             s3 = emit (drawCel it (scaleSignal it)) s2;
             it1 = it\<lparr>showBitsFlag := True\<rparr>;
             it2 = (if tst (signal it1) kSignalRemoveView
                    then it1\<lparr>signal := signal it1 AND NOT kSignalRemoveView\<rparr> else it1)
         in (it2, s3\<lparr>lastCastData := lastCastData s3 @ [it2]\<rparr>))
      else (it, s))"

definition drawCels :: "env \<Rightarrow> state \<Rightarrow> state" where
  "drawCels en s =
     (let (l, s1) = forEach (drawCels_step en) (alist s) (s\<lparr>lastCastData := []\<rparr>)
      in s1\<lparr>alist := l\<rparr>)"

subsection \<open>Showing, restoring, disposing\<close>

text \<open>
  Modelled from the spec: \<^verbatim>\<open>Common::Rect\<close>'s \<^verbatim>\<open>clip\<close>, \<^verbatim>\<open>isEmpty\<close>, \<^verbatim>\<open>extend\<close> and
  \<^verbatim>\<open>translate\<close> (common/rect.h) are not among the sources: the intersection test and the
  union of the old and the new rectangle of the screen reconciler, and the shift of the
  picture window to screen coordinates.
\<close>

definition rect_clip :: "rect \<Rightarrow> rect \<Rightarrow> rect" where
  "rect_clip a r =
     \<lparr> r_top = (if r_top a <s r_top r then r_top r
                else if r_bottom r <s r_top a then r_bottom r else r_top a),
       r_left = (if r_left a <s r_left r then r_left r
                 else if r_right r <s r_left a then r_right r else r_left a),
       r_bottom = (if r_bottom r <s r_bottom a then r_bottom r
                   else if r_bottom a <s r_top r then r_top r else r_bottom a),
       r_right = (if r_right r <s r_right a then r_right r
                  else if r_right a <s r_left r then r_left r else r_right a) \<rparr>"

definition rect_isEmpty :: "rect \<Rightarrow> bool" where
  "rect_isEmpty a = (r_right a \<le>s r_left a \<or> r_bottom a \<le>s r_top a)"

definition rect_extend :: "rect \<Rightarrow> rect \<Rightarrow> rect" where
  "rect_extend a r =
     \<lparr> r_top = (if r_top r <s r_top a then r_top r else r_top a),
       r_left = (if r_left r <s r_left a then r_left r else r_left a),
       r_bottom = (if r_bottom a <s r_bottom r then r_bottom r else r_bottom a),
       r_right = (if r_right a <s r_right r then r_right r else r_right a) \<rparr>"

definition rect_translate :: "rect \<Rightarrow> int16 \<Rightarrow> int16 \<Rightarrow> rect" where
  "rect_translate a dx dy =
     \<lparr> r_top = r_top a + dy, r_left = r_left a + dx,
       r_bottom = r_bottom a + dy, r_right = r_right a + dx \<rparr>"

definition updateScreen_step :: "byte \<Rightarrow> AnimateEntry \<Rightarrow> state \<Rightarrow> AnimateEntry \<times> state" where
  "updateScreen_step oldPicNotValid it s =
     (if showBitsFlag it
         \<or> \<not> (tst (signal it) (kSignalRemoveView OR kSignalNoUpdate)
              \<or> (\<not> tst (signal it) kSignalRemoveView \<and> tst (signal it) kSignalNoUpdate
                  \<and> oldPicNotValid \<noteq> 0)) then
        (let lsRect = \<lparr> r_top = readSelectorValue s (object it) SEL_lsTop,
                        r_left = readSelectorValue s (object it) SEL_lsLeft,
                        r_bottom = readSelectorValue s (object it) SEL_lsBottom,
                        r_right = readSelectorValue s (object it) SEL_lsRight \<rparr>;
             workerRect0 = rect_clip lsRect (celRect it);
             (workerRect, s1) =
               (if \<not> rect_isEmpty workerRect0 then (rect_extend lsRect (celRect it), s)
                else (celRect it, emit (BitsShow lsRect) s));
             s2 = writeSelectorValue (object it) SEL_lsBottom (r_bottom (celRect it))
                    (writeSelectorValue (object it) SEL_lsRight (r_right (celRect it))
                      (writeSelectorValue (object it) SEL_lsTop (r_top (celRect it))
                        (writeSelectorValue (object it) SEL_lsLeft (r_left (celRect it)) s1)));
             s3 = emit (BitsShow workerRect) s2
         in if tst (signal it) kSignalHidden
            then (it\<lparr>signal := signal it OR kSignalRemoveView\<rparr>, s3) else (it, s3))
      else (it, s))"

definition updateScreen :: "byte \<Rightarrow> state \<Rightarrow> state" where
  "updateScreen oldPicNotValid s =
     (let (l, s1) = forEach (updateScreen_step oldPicNotValid) (alist s) s in s1\<lparr>alist := l\<rparr>)"

text \<open>
  \<^verbatim>\<open>restoreAndDelete\<close>: the first loop writes the signals, the second (backwards) reads
  each signal again, restores and disposes. The script method runs on the state the
  restoration left.
\<close>

definition restoreAndDelete_write :: "AnimateEntry \<Rightarrow> state \<Rightarrow> AnimateEntry \<times> state" where
  "restoreAndDelete_write it s = (it, writeSelectorValue (object it) SEL_signal (signal it) s)"

definition restoreAndDelete_dispose ::
  "env \<Rightarrow> AnimateEntry \<Rightarrow> state \<Rightarrow> AnimateEntry \<times> state" where
  "restoreAndDelete_dispose en it s =
     (let it1 = it\<lparr>signal := readSelectorValue s (object it) SEL_signal\<rparr>;
          s1 = (if signal it1 AND (kSignalNoUpdate OR kSignalRemoveView) = 0 then
                  writeSelectorValue (object it1) SEL_underBits 0
                    (emit (BitsRestore (readSelector s (object it1) SEL_underBits)) s)
                else s);
          s2 = (if tst (signal it1) kSignalDisposeMe
                then delete_method en (object it1) (emit (InvokeDelete (object it1)) s1) else s1)
      in (it1, s2))"

definition restoreAndDelete :: "env \<Rightarrow> state \<Rightarrow> state" where
  "restoreAndDelete en s =
     (let (l1, s1) = forEach restoreAndDelete_write (alist s) s;
          (l2, s2) = forEachReverse (restoreAndDelete_dispose en) l1 s1
      in s2\<lparr>alist := l2\<rparr>)"

text \<open>
  \<^verbatim>\<open>reAnimate\<close>: save and draw each entry of the last cast, show the rectangle, then walk
  the iterator back from the end to the beginning, restoring.
\<close>

definition reAnimate_save :: "env \<Rightarrow> AnimateEntry \<Rightarrow> state \<Rightarrow> AnimateEntry \<times> state" where
  "reAnimate_save en it s =
     (let (h, s1) = bitsSave en (celRect it) (GFX_SCREEN_MASK_VISUAL OR GFX_SCREEN_MASK_PRIORITY) s;
          it1 = it\<lparr>castHandle := h\<rparr>
      in (it1, emit (drawCel it1 0) s1))"

fun reAnimate_restore :: "AnimateEntry list \<Rightarrow> state \<Rightarrow> state" where
  "reAnimate_restore [] s = s"
| "reAnimate_restore (it # its) s = reAnimate_restore its (emit (BitsRestore (castHandle it)) s)"

definition reAnimate :: "env \<Rightarrow> rect \<Rightarrow> state \<Rightarrow> state" where
  "reAnimate en r s =
     (if lastCastData s \<noteq> [] then
        (let (l, s1) = forEach (reAnimate_save en) (lastCastData s) s;
             s2 = emit (BitsShow r) (s1\<lparr>lastCastData := l\<rparr>)
         in reAnimate_restore (rev l) s2)
      else emit (BitsShow r) s)"

subsection \<open>The frame\<close>

definition disposeLastCast :: "state \<Rightarrow> state" where
  "disposeLastCast s = s\<lparr>lastCastData := []\<rparr>"

definition animateShowPic :: "env \<Rightarrow> state \<Rightarrow> state" where
  "animateShowPic en s =
     (let picPort = picWind en;
          picRect = port_rect picPort;
          previousCursorState = cursorVisible s;
          s1 = (if previousCursorState then emit CursorHide (s\<lparr>cursorVisible := False\<rparr>) else s);
          picRect' = rect_translate picRect (port_left picPort) (port_top picPort);
          s2 = transitionsDoit en picRect' (emit (TransitionsDoit picRect') s1)
      in if previousCursorState then emit CursorShow (s2\<lparr>cursorVisible := True\<rparr>) else s2)"

text \<open>
  The part of \<^verbatim>\<open>kernelAnimate\<close> after the invocation step: from \<^verbatim>\<open>setPort\<close> to the
  throttle trigger, on the \<^verbatim>\<open>List\<close> pointer that the variable \<open>list\<close> holds there.
\<close>

definition kernelAnimate_frame ::
  "env \<Rightarrow> List_t option \<Rightarrow> byte \<Rightarrow> state \<Rightarrow> (error + state) option" where
  "kernelAnimate_frame en list old_picNotValid s =
     (let oldPort = curPort s;
          s1 = disposeLastCast (s\<lparr>curPort := picWind en\<rparr>)
      in case makeSortedList en list s1 of
           None \<Rightarrow> None
         | Some (Inl e) \<Rightarrow> Some (Inl e)
         | Some (Inr s2) \<Rightarrow>
             (case fill en s2 old_picNotValid of
                Inl e \<Rightarrow> Some (Inl e)
              | Inr (s3, old') \<Rightarrow>
                  (let s4 = (if old' \<noteq> 0 then
                               (let b = (if SCI_VERSION_1_EGA_ONLY \<le> sciVersion en
                                         then emit BeginUpdate s3 else s3);
                                    u = update en b
                                in if SCI_VERSION_1_EGA_ONLY \<le> sciVersion en
                                   then emit EndUpdate u else u)
                             else s3);
                       s5 = drawCels en s4;
                       s6 = (if picNotValid s5 \<noteq> 0 then animateShowPic en s5 else s5);
                       s7 = updateScreen old' s6;
                       s8 = restoreAndDelete en s7;
                       s9 = emit EventUpdateScreen s8;
                       s10 = s9\<lparr>curPort := oldPort\<rparr>
                   in Some (Inr (s10\<lparr>throttleTrigger := True\<rparr>)))))"

text \<open>
  \<^verbatim>\<open>kernelAnimate\<close>. The first lookup of the list is tested and a null pointer is the
  fatal error; the second lookup, after the invocation step, is not tested and its result
  is passed on as it is.
\<close>

definition kernelAnimate :: "env \<Rightarrow> reg_t \<Rightarrow> bool \<Rightarrow> state \<Rightarrow> (error + state) option" where
  "kernelAnimate en listReference cycle s =
     (let s1 = (if picNotValid s \<noteq> 0 then emit PalVaryDelay s else s);
          old_picNotValid = picNotValid s1;
          s2 = (if SCI_VERSION_1_1 \<le> sciVersion en then emit PalVaryUpdate s1 else s1)
      in if isNull listReference then
           (let s3 = disposeLastCast s2
            in Some (Inr (if picNotValid s3 \<noteq> 0 then animateShowPic en s3 else s3)))
         else
           case lookupList s2 listReference of
             None \<Rightarrow> Some (Inl NonListParameter)
           | Some lst \<Rightarrow>
               if cycle then
                 (case invoke en lst s2 of
                    None \<Rightarrow> None
                  | Some (Inl e) \<Rightarrow> Some (Inl e)
                  | Some (Inr (ok, s3)) \<Rightarrow>
                      if \<not> ok then Some (Inr s3)
                      else kernelAnimate_frame en (lookupList s3 listReference) old_picNotValid s3)
               else kernelAnimate_frame en (Some lst) old_picNotValid s2)"

subsection \<open>A small cast for the examples\<close>

definition plain_view :: view where
  "plain_view =
     \<lparr> getLoopCount = 4, getCelCount = (\<lambda>_. 3), getHeight = (\<lambda>_ _. 40), isScaleable = True,
       getCelRect = (\<lambda>_ _ px py pz.
          \<lparr> r_top = py - pz - 40, r_left = px, r_bottom = py - pz, r_right = px + 20 \<rparr>),
       getCelScaledRect = (\<lambda>_ _ px py pz sx sy.
          \<lparr> r_top = py - pz - 20, r_left = px, r_bottom = py - pz, r_right = px + 10 \<rparr>),
       getCelSpecialHoyle4Rect = (\<lambda>_ _ _ _ _ r. r) \<rparr>"

definition pic_port :: Port where
  "pic_port = \<lparr> port_rect = \<lparr> r_top = 0, r_left = 0, r_bottom = 200, r_right = 320 \<rparr>,
                port_top = 10, port_left = 0 \<rparr>"

definition test_env :: env where
  "test_env =
     \<lparr> sciVersion = SCI_VERSION_1_1, isHoyle4 = False, fastCastEnabled = True,
       getView = (\<lambda>_. plain_view), picWind = pic_port,
       kernelCoordinateToPriority = (\<lambda>py. 7), kernelPriorityToCoordinate = (\<lambda>p. 100),
       bitsSaveHandle = (\<lambda>r m s. Reg 0xFFFF (word_of_nat (length (trace s)))),
       transitionsDoit = (\<lambda>r s. s\<lparr>picNotValid := 0\<rparr>),
       doit = (\<lambda>obj s. s), delete_method = (\<lambda>obj s. s) \<rparr>"

definition test_state :: state where
  "test_state =
     \<lparr> nodes = Map.empty, lists = Map.empty, objects = (\<lambda>_ _. NULL_REG),
       globalFastCast = NULL_REG, globalCurrentRoom = Reg 1 0x100,
       abortScriptProcessing = False, throttleTrigger = False, picNotValid = 0,
       cursorVisible = True, curPort = pic_port, alist = [], lastCastData = [], trace = [] \<rparr>"

text \<open>The entry of object \<open>n\<close> at depth \<open>(py, pz)\<close> with signal \<open>sig\<close>.\<close>

definition cast_entry :: "uint16 \<Rightarrow> int16 \<Rightarrow> int16 \<Rightarrow> uint16 \<Rightarrow> AnimateEntry" where
  "cast_entry n py pz sig =
     \<lparr> givenOrderNo = n, object = Reg 1 n, viewId = 0, loopNo = 0, celNo = 0, paletteNo = 0,
       entry_x = 50, entry_y = py, entry_z = pz, priority = 7, signal = sig, scaleSignal = 0,
       scaleX = 128, scaleY = 128,
       celRect = \<lparr> r_top = py - 40, r_left = 50, r_bottom = py, r_right = 70 \<rparr>,
       showBitsFlag = False, castHandle = NULL_REG \<rparr>"

text \<open>
  The entry of object \<open>n\<close> with signal \<open>sig\<close> that shows cel \<open>c\<close> of loop \<open>l\<close> of view
  \<open>v\<close>, at priority 9 with palette 2, scaled to 100 by 90.
\<close>

definition posed_entry :: "uint16 \<Rightarrow> uint16 \<Rightarrow> nat \<Rightarrow> int16 \<Rightarrow> int16 \<Rightarrow> AnimateEntry" where
  "posed_entry n sig v l c =
     (cast_entry n 10 5 sig)\<lparr>viewId := v, loopNo := l, celNo := c, priority := 9,
        paletteNo := 2, scaleX := 100, scaleY := 90\<rparr>"

subsection \<open>Statements of the specification\<close>

text \<open>
  The signals for which \<^verbatim>\<open>fill\<close> is said to count the picture as invalid: NoUpdate
  with ForceUpdate or ViewUpdated, or with exactly one of Hidden and RemoveView, or with
  AlwaysUpdate; or no NoUpdate with StopUpdate or AlwaysUpdate.
\<close>

definition invalidates_spec :: "uint16 \<Rightarrow> bool" where
  "invalidates_spec sig \<longleftrightarrow>
     (tst sig kSignalNoUpdate \<and>
        (tst sig kSignalForceUpdate \<or> tst sig kSignalViewUpdated
         \<or> (tst sig kSignalHidden \<and> \<not> tst sig kSignalRemoveView)
         \<or> (tst sig kSignalRemoveView \<and> \<not> tst sig kSignalHidden)
         \<or> tst sig kSignalAlwaysUpdate))
     \<or> (\<not> tst sig kSignalNoUpdate \<and> (tst sig kSignalStopUpdate \<or> tst sig kSignalAlwaysUpdate))"

subsection \<open>Relations between the states of a pass\<close>

text \<open>A later state of a pass: the trace has grown.\<close>

definition trace_extends :: "state \<Rightarrow> state \<Rightarrow> bool" where
  "trace_extends a b \<longleftrightarrow> (\<exists>cs. trace b = trace a @ cs)"

text \<open>
  A later state of the first loop of \<^verbatim>\<open>update\<close>: the trace has grown, the screen's
  \<^verbatim>\<open>_picNotValid\<close> is the same, and every selector is as it was or is an \<open>underBits\<close>
  that has been cleared.
\<close>

definition remove_extends :: "state \<Rightarrow> state \<Rightarrow> bool" where
  "remove_extends a b \<longleftrightarrow>
     (\<exists>cs. trace b = trace a @ cs) \<and> picNotValid b = picNotValid a
     \<and> (\<forall>obj sel. objects b obj sel = objects a obj sel
                    \<or> (sel = SEL_underBits \<and> objects b obj sel = NULL_REG))"

text \<open>
  Two states for \<^verbatim>\<open>update\<close>: an entry with StopUpdate and AlwaysUpdate, showing cel 1
  of loop 2 of view 3, before one without any bit; and one NoUpdate entry whose object holds a saved background, with the
  screen's \<^verbatim>\<open>_picNotValid\<close> as given.
\<close>

definition stop_always_state :: state where
  "stop_always_state =
     test_state\<lparr>alist := [posed_entry 0 0x21 3 2 1, cast_entry 1 20 0 0], picNotValid := 1\<rparr>"

definition noupdate_state :: "byte \<Rightarrow> state" where
  "noupdate_state pnv =
     test_state\<lparr>alist := [cast_entry 0 10 5 0x04], picNotValid := pnv,
       objects := (\<lambda>_ _. NULL_REG)(Reg 1 0 := (\<lambda>_. NULL_REG)(SEL_underBits := Reg 2 7))\<rparr>"

text \<open>
  Two NoUpdate entries on two objects that hold the saved backgrounds 7 and 8, the second
  entry also with ViewUpdated and ForceUpdate, with the screen's \<^verbatim>\<open>_picNotValid\<close> as
  given.
\<close>

definition noupdate_pair_state :: "byte \<Rightarrow> state" where
  "noupdate_pair_state pnv =
     test_state\<lparr>alist := [cast_entry 0 10 5 0x04, cast_entry 1 10 5 0x46], picNotValid := pnv,
       objects := (\<lambda>obj sel. if sel = SEL_underBits
                               then (if obj = Reg 1 0 then Reg 2 7
                                     else if obj = Reg 1 1 then Reg 2 8 else NULL_REG)
                               else NULL_REG)\<rparr>"

text \<open>
  Two entries whose objects hold saved backgrounds, the second to be disposed; and an
  environment whose \<^verbatim>\<open>delete\<close> method sets NoUpdate in the signal of the first object.
\<close>

definition sibling_env :: env where
  "sibling_env =
     test_env\<lparr>delete_method := (\<lambda>obj s. writeSelectorValue (Reg 1 0) SEL_signal 0x04 s)\<rparr>"

definition sibling_state :: state where
  "sibling_state =
     test_state\<lparr>alist := [cast_entry 0 10 0 0, cast_entry 1 20 0 0x8000],
       objects := (\<lambda>obj _. Reg 2 (getOffset obj))\<rparr>"

text \<open>
  The scale of the perspective formula as the specification writes it, in unbounded
  integers with rounding down: \<open>maxCelHeight = \<lfloor>maxScale * celHeight / 128\<rfloor>\<close>,
  \<open>fixedPortY = portBottom - vanishingY\<close>, \<open>fixedEntryY = entryY - vanishingY\<close> with 0
  replaced by 1, \<open>scaleY = \<lfloor>\<lfloor>maxCelHeight * fixedEntryY / fixedPortY\<rfloor> * 128 / celHeight\<rfloor>\<close>.
\<close>

definition scaleY_spec :: "int \<Rightarrow> int \<Rightarrow> int \<Rightarrow> int \<Rightarrow> int \<Rightarrow> int" where
  "scaleY_spec maxScale celHeight vanishingY portBottom entryY =
     (let maxCelHeight = maxScale * celHeight div 128;
          fixedPortY = portBottom - vanishingY;
          fixedEntryY = (if entryY - vanishingY = 0 then 1 else entryY - vanishingY)
      in (maxCelHeight * fixedEntryY div fixedPortY) * 128 div celHeight)"

text \<open>
  A scaled entry at height \<open>py\<close> in a room whose vanishing point is at 100, with
  \<open>maxScale\<close> 128, cels 40 high and the picture window 200 high.
\<close>

definition scaling_entry :: "int16 \<Rightarrow> AnimateEntry" where
  "scaling_entry py = (cast_entry 0 py 0 0)\<lparr>scaleSignal := 0x0003\<rparr>"

definition scaling_state :: state where
  "scaling_state =
     test_state\<lparr>objects := (\<lambda>obj sel. if sel = SEL_maxScale then Reg 0 128
                                      else if sel = SEL_vanishingY then Reg 0 100
                                      else NULL_REG)\<rparr>"

text \<open>
  A well-formed script list: from \<open>addr\<close> the nodes hold the objects \<open>objs\<close>, in this
  order, and the last \<open>succ\<close> is the null handle.
\<close>

fun node_chain :: "state \<Rightarrow> reg_t \<Rightarrow> reg_t list \<Rightarrow> bool" where
  "node_chain s addr [] = isNull addr"
| "node_chain s addr (obj # objs) =
     (\<not> isNull addr \<and>
      (case nodes s addr of
         None \<Rightarrow> False
       | Some n \<Rightarrow> nvalue n = obj \<and> node_chain s (succ n) objs))"

text \<open>
  The entries in traversal order: the entry of each object of the list with its
  position, counted in 16 bits from \<open>n\<close>.
\<close>

fun traversal :: "env \<Rightarrow> state \<Rightarrow> reg_t list \<Rightarrow> int16 \<Rightarrow> AnimateEntry list" where
  "traversal en s [] n = []"
| "traversal en s (obj # objs) n = readEntry en s obj n # traversal en s objs (n + 1)"

text \<open>The objects of the sorted list, in order (none when the call fails).\<close>

definition cast_order :: "env \<Rightarrow> List_t \<Rightarrow> state \<Rightarrow> reg_t list" where
  "cast_order en lst s =
     (case makeSortedList en (Some lst) s of
        Some (Inr s') \<Rightarrow> map object (alist s')
      | _ \<Rightarrow> [])"

text \<open>The depths \<open>(y, z)\<close> that occur in a list of entries.\<close>

definition depths :: "AnimateEntry list \<Rightarrow> (int16 \<times> int16) set" where
  "depths es = (\<lambda>e. (entry_y e, entry_z e)) ` set es"

text \<open>
  A cast of four: object 1 at \<open>y = 20\<close>, objects 2, 3 and 4 at \<open>y = 10\<close>, all at
  \<open>z = 5\<close>, in a list of four nodes.
\<close>

definition cast_list :: List_t where
  "cast_list = \<lparr> first = Reg 3 1, last_n = Reg 3 4 \<rparr>"

definition cast_state :: state where
  "cast_state =
     test_state\<lparr>
       nodes := [Reg 3 1 \<mapsto> \<lparr> pred_n = NULL_REG, succ = Reg 3 2, nvalue = Reg 1 1 \<rparr>,
                 Reg 3 2 \<mapsto> \<lparr> pred_n = Reg 3 1, succ = Reg 3 3, nvalue = Reg 1 2 \<rparr>,
                 Reg 3 3 \<mapsto> \<lparr> pred_n = Reg 3 2, succ = Reg 3 4, nvalue = Reg 1 3 \<rparr>,
                 Reg 3 4 \<mapsto> \<lparr> pred_n = Reg 3 3, succ = NULL_REG, nvalue = Reg 1 4 \<rparr>],
       lists := [Reg 4 0 \<mapsto> cast_list],
       objects := (\<lambda>obj sel. if sel = SEL_y then (if obj = Reg 1 1 then Reg 0 20 else Reg 0 10)
                               else if sel = SEL_z then Reg 0 5 else NULL_REG)\<rparr>"

text \<open>
  A list of 32769 nodes, node \<open>k\<close> holding object \<open>k\<close>, all objects at the same depth
  (every selector is 0).
\<close>

definition long_list :: List_t where
  "long_list = \<lparr> first = Reg 3 1, last_n = Reg 3 32769 \<rparr>"

definition long_objs :: "reg_t list" where
  "long_objs = map (\<lambda>k. Reg 1 (word_of_nat k)) [1..<32770]"

definition long_state :: state where
  "long_state =
     test_state\<lparr>
       nodes := (\<lambda>addr. if getSegment addr = 3 \<and> 1 \<le> unat (getOffset addr)
                            \<and> unat (getOffset addr) \<le> 32769
                         then Some \<lparr> pred_n = NULL_REG,
                                     succ = (if unat (getOffset addr) = 32769 then NULL_REG
                                             else Reg 3 (getOffset addr + 1)),
                                     nvalue = Reg 1 (getOffset addr) \<rparr>
                         else None)\<rparr>"

text \<open>
  One iteration of the loop of \<^verbatim>\<open>invoke\<close> that goes on to the next test of
  \<open>curNode\<close>: from the address, node and state at the test to those at the next test.
  The object is frozen and skipped; or its \<^verbatim>\<open>doit\<close> is called and its node is gone
  afterwards; or it is called and the walk moves to the successor of its node.
\<close>

inductive invoke_next ::
  "env \<Rightarrow> reg_t \<times> Node option \<times> state \<Rightarrow> reg_t \<times> Node option \<times> state \<Rightarrow> bool"
  for en :: env where
  frozen:
    "\<not> (fastCastEnabled en \<and> \<not> isNull (globalFastCast s)) \<Longrightarrow>
     tst (readSelectorValue s (nvalue node) SEL_signal) kSignalFrozen \<Longrightarrow>
     lookupNode s (succ node) True = Inr nx \<Longrightarrow>
     invoke_next en (a, Some node, s) (succ node, nx, s)"
| gone:
    "\<not> (fastCastEnabled en \<and> \<not> isNull (globalFastCast s)) \<Longrightarrow>
     \<not> tst (readSelectorValue s (nvalue node) SEL_signal) kSignalFrozen \<Longrightarrow>
     s1 = doit en (nvalue node) (emit (InvokeDoit (nvalue node)) s) \<Longrightarrow>
     \<not> abortScriptProcessing s1 \<Longrightarrow>
     lookupNode s1 a False = Inr None \<Longrightarrow>
     invoke_next en (a, Some node, s) (a, None, s1)"
| called:
    "\<not> (fastCastEnabled en \<and> \<not> isNull (globalFastCast s)) \<Longrightarrow>
     \<not> tst (readSelectorValue s (nvalue node) SEL_signal) kSignalFrozen \<Longrightarrow>
     s1 = doit en (nvalue node) (emit (InvokeDoit (nvalue node)) s) \<Longrightarrow>
     \<not> abortScriptProcessing s1 \<Longrightarrow>
     lookupNode s1 a False = Inr (Some node1) \<Longrightarrow>
     lookupNode s1 (succ node1) True = Inr nx \<Longrightarrow>
     invoke_next en (a, Some node, s) (succ node1, nx, s1)"

text \<open>The calls a \<^verbatim>\<open>kernelAnimate\<close> that returns has made (none when it fails).\<close>

definition animate_trace :: "env \<Rightarrow> reg_t \<Rightarrow> bool \<Rightarrow> state \<Rightarrow> call list" where
  "animate_trace en listReference cycle s =
     (case kernelAnimate en listReference cycle s of
        Some (Inr s') \<Rightarrow> trace s'
      | _ \<Rightarrow> [])"


definition fastcast_env :: env where
  "fastcast_env = test_env\<lparr>doit := (\<lambda>obj s. s\<lparr>globalFastCast := Reg 1 9\<rparr>)\<rparr>"

declare fillList.simps [code]
declare invoke_loop.simps [code]



section \<open>Properties\<close>

subsection \<open>The trace and the loops\<close>

lemma trace_emit: "trace (emit c s) = trace s @ [c]"
  by (simp add: emit_def)

lemma lastCastData_emit: "lastCastData (emit c s) = lastCastData s"
  by (simp add: emit_def)

subsection \<open>Re-animating the last cast\<close>

lemma reAnimate_restore_trace:
  "trace (reAnimate_restore its s) = trace s @ map (\<lambda>it. BitsRestore (castHandle it)) its"
  by (induction its arbitrary: s) (simp_all add: trace_emit)

lemma reAnimate_restore_lastCastData:
  "lastCastData (reAnimate_restore its s) = lastCastData s"
  by (induction its arbitrary: s) (simp_all add: lastCastData_emit)

lemma forEach_reAnimate_save:
  "forEach (reAnimate_save en) its s = (l, s') \<Longrightarrow>
     trace s' = trace s @ concat (map (\<lambda>it.
         [BitsSave (celRect it) (GFX_SCREEN_MASK_VISUAL OR GFX_SCREEN_MASK_PRIORITY) (castHandle it),
          drawCel it 0]) l)
     \<and> map (\<lambda>it. it\<lparr>castHandle := NULL_REG\<rparr>) l = map (\<lambda>it. it\<lparr>castHandle := NULL_REG\<rparr>) its"
proof (induction its arbitrary: s l s')
  case Nil
  then show ?case by simp
next
  case (Cons it its)
  obtain it1 s1 where f: "reAnimate_save en it s = (it1, s1)"
    by (cases "reAnimate_save en it s")
  obtain l2 s2 where r: "forEach (reAnimate_save en) its s1 = (l2, s2)"
    by (cases "forEach (reAnimate_save en) its s1")
  from Cons.prems f r have l: "l = it1 # l2" and s': "s' = s2" by simp_all
  from f have t1: "trace s1 = trace s @
      [BitsSave (celRect it1) (GFX_SCREEN_MASK_VISUAL OR GFX_SCREEN_MASK_PRIORITY) (castHandle it1),
       drawCel it1 0]"
    and e1: "it1\<lparr>castHandle := NULL_REG\<rparr> = it\<lparr>castHandle := NULL_REG\<rparr>"
    by (auto simp: reAnimate_save_def bitsSave_def Let_def trace_emit drawCel_def)
  from Cons.IH [OF r] t1 e1 show ?case by (simp add: l s')
qed

text \<open>
  C7. \<^verbatim>\<open>reAnimate\<close> appends to the trace, for each entry of the retained snapshot in
  snapshot order, the save of its background over the visual and priority planes and the
  drawing of its cel (the entry's view, loop and cel, into its rectangle, with its
  priority, palette and scale and no scale signal), then one \<^verbatim>\<open>bitsShow\<close> of the given rectangle, then the restores of
  the saved handles in the reverse order of saving; the snapshot keeps its entries, each
  now holding its handle. With an empty snapshot the trace grows by the one
  \<^verbatim>\<open>bitsShow\<close> only.
\<close>

theorem reAnimate_lifo:
  "trace (reAnimate en r s) =
     trace s
       @ concat (map (\<lambda>it.
           [BitsSave (celRect it) (GFX_SCREEN_MASK_VISUAL OR GFX_SCREEN_MASK_PRIORITY) (castHandle it),
            DrawCel (viewId it) (loopNo it) (celNo it) (celRect it) (priority it) (paletteNo it)
              (scaleX it) (scaleY it) 0]) (lastCastData (reAnimate en r s)))
       @ [BitsShow r]
       @ map (\<lambda>it. BitsRestore (castHandle it)) (rev (lastCastData (reAnimate en r s)))
   \<and> map (\<lambda>it. it\<lparr>castHandle := NULL_REG\<rparr>) (lastCastData (reAnimate en r s))
       = map (\<lambda>it. it\<lparr>castHandle := NULL_REG\<rparr>) (lastCastData s)
   \<and> (lastCastData s = [] \<longrightarrow> trace (reAnimate en r s) = trace s @ [BitsShow r])"
proof (cases "lastCastData s = []")
  case True
  then show ?thesis by (simp add: reAnimate_def trace_emit lastCastData_emit)
next
  case False
  obtain l s1 where f: "forEach (reAnimate_save en) (lastCastData s) s = (l, s1)"
    by (cases "forEach (reAnimate_save en) (lastCastData s) s")
  have lc: "lastCastData (reAnimate en r s) = l"
    using False f by (simp add: reAnimate_def reAnimate_restore_lastCastData lastCastData_emit)
  have "trace (reAnimate en r s)
          = trace s1 @ [BitsShow r] @ map (\<lambda>it. BitsRestore (castHandle it)) (rev l)"
    using False f by (simp add: reAnimate_def reAnimate_restore_trace trace_emit)
  with forEach_reAnimate_save [OF f] False show ?thesis by (simp add: lc drawCel_def)
qed

text \<open>
  The snapshot [X, Y, Z] of three different cels: the handles are saved in the order X, Y,
  Z, each cel is drawn after its save, and the handles are restored in the order Z, Y, X;
  and the empty snapshot.
\<close>

theorem reAnimate_lifo_witness:
  "trace (reAnimate test_env \<lparr> r_top = 0, r_left = 0, r_bottom = 100, r_right = 100 \<rparr>
      (test_state\<lparr>lastCastData := [posed_entry 0 0 11 1 2, posed_entry 1 0 12 0 1,
                                      posed_entry 2 0 13 3 0]\<rparr>))
   = [BitsSave \<lparr>r_top = 65506, r_left = 50, r_bottom = 10, r_right = 70\<rparr> 3 (Reg 65535 0),
      DrawCel 11 1 2 \<lparr>r_top = 65506, r_left = 50, r_bottom = 10, r_right = 70\<rparr> 9 2 100 90 0,
      BitsSave \<lparr>r_top = 65506, r_left = 50, r_bottom = 10, r_right = 70\<rparr> 3 (Reg 65535 2),
      DrawCel 12 0 1 \<lparr>r_top = 65506, r_left = 50, r_bottom = 10, r_right = 70\<rparr> 9 2 100 90 0,
      BitsSave \<lparr>r_top = 65506, r_left = 50, r_bottom = 10, r_right = 70\<rparr> 3 (Reg 65535 4),
      DrawCel 13 3 0 \<lparr>r_top = 65506, r_left = 50, r_bottom = 10, r_right = 70\<rparr> 9 2 100 90 0,
      BitsShow \<lparr>r_top = 0, r_left = 0, r_bottom = 100, r_right = 100\<rparr>,
      BitsRestore (Reg 65535 4), BitsRestore (Reg 65535 2), BitsRestore (Reg 65535 0)]
   \<and> lastCastData test_state = []
   \<and> trace (reAnimate test_env \<lparr> r_top = 0, r_left = 0, r_bottom = 100, r_right = 100 \<rparr> test_state)
       = [BitsShow \<lparr>r_top = 0, r_left = 0, r_bottom = 100, r_right = 100\<rparr>]"
  using reAnimate_lifo [of test_env "\<lparr> r_top = 0, r_left = 0, r_bottom = 100, r_right = 100 \<rparr>"
      "test_state\<lparr>lastCastData := [posed_entry 0 0 11 1 2, posed_entry 1 0 12 0 1,
                                      posed_entry 2 0 13 3 0]\<rparr>"]
    reAnimate_lifo [of test_env "\<lparr> r_top = 0, r_left = 0, r_bottom = 100, r_right = 100 \<rparr>" test_state]
  by (simp add: reAnimate_def test_state_def test_env_def posed_entry_def cast_entry_def
      reAnimate_save_def bitsSave_def emit_def drawCel_def mask_defs Let_def)

subsection \<open>Resolving the entries: the counter and the signals\<close>

lemma tst_OR: "tst sig (a OR b) \<longleftrightarrow> tst sig a \<or> tst sig b"
  by (simp add: tst_def bit.conj_disj_distrib or_eq_0_iff)

lemma adjustInvalidCels_signal:
  "adjustInvalidCels v it s = (it', s') \<Longrightarrow> signal it' = signal it"
  by (auto simp: adjustInvalidCels_def Let_def split: if_splits)

lemma applyGlobalScaling_signal:
  "applyGlobalScaling v it s = Inr (it', s') \<Longrightarrow> signal it' = signal it"
  by (auto simp: applyGlobalScaling_def Let_def split: if_splits)

lemma processViewScaling_signal:
  "processViewScaling v it s = Inr (it', s') \<Longrightarrow> signal it' = signal it"
  by (auto simp: processViewScaling_def dest: applyGlobalScaling_signal split: if_splits)

lemma setNsRect_signal:
  "setNsRect en v it s = (it', s') \<Longrightarrow> signal it' = signal it"
  by (auto simp: setNsRect_def Let_def split: if_splits)

lemma fill_step_result:
  assumes "fill_step en it s c = Inr (it', s', c')"
  shows "c' = (if invalidates_spec (signal it) then c + 1 else c)
       \<and> signal it' = (if tst (signal it) kSignalNoUpdate
                       then signal it AND NOT kSignalStopUpdate
                       else signal it AND NOT kSignalForceUpdate)"
proof -
  obtain it1 s1 where a: "adjustInvalidCels (getView en (viewId it)) it s = (it1, s1)"
    by (cases "adjustInvalidCels (getView en (viewId it)) it s")
  from assms a obtain it2 s2
    where p: "processViewScaling (getView en (viewId it)) it1 s1 = Inr (it2, s2)"
    by (cases "processViewScaling (getView en (viewId it)) it1 s1")
      (auto simp: fill_step_def Let_def)
  obtain it3 s3 where n: "setNsRect en (getView en (viewId it)) it2 s2 = (it3, s3)"
    by (cases "setNsRect en (getView en (viewId it)) it2 s2")
  have sg: "signal it3 = signal it"
    using adjustInvalidCels_signal [OF a] processViewScaling_signal [OF p]
      setNsRect_signal [OF n]
    by simp
  from assms a p n sg show ?thesis
    by (auto simp: fill_step_def Let_def invalidates_spec_def tst_OR split: if_splits)
qed

lemma fill_loop_result:
  "fill_loop en its s c = Inr (its', s', c') \<Longrightarrow>
     c' = c + word_of_nat (length (filter (\<lambda>it. invalidates_spec (signal it)) its))
     \<and> map signal its' =
         map (\<lambda>it. if tst (signal it) kSignalNoUpdate
                    then signal it AND NOT kSignalStopUpdate
                    else signal it AND NOT kSignalForceUpdate) its"
proof (induction its arbitrary: s c its' s' c')
  case Nil
  then show ?case by simp
next
  case (Cons it its)
  from Cons.prems obtain it1 s1 c1 where st: "fill_step en it s c = Inr (it1, s1, c1)"
    by (cases "fill_step en it s c") auto
  from Cons.prems st obtain its2 s2 c2 where r: "fill_loop en its s1 c1 = Inr (its2, s2, c2)"
    by (cases "fill_loop en its s1 c1") auto
  from Cons.prems st r have e: "its' = it1 # its2" "c' = c2" by simp_all
  from Cons.IH [OF r] fill_step_result [OF st] e show ?case by simp
qed

text \<open>
  C9. In a \<^verbatim>\<open>fill\<close> that completes, each iteration increments the (8-bit) counter
  \<^verbatim>\<open>old_picNotValid\<close> by one if and only if the entry's signal is one of the
  combinations \<open>invalidates_spec\<close>, and leaves it as it is otherwise; so the counter
  grows by the number of such entries. The signal of every NoUpdate entry leaves with
  StopUpdate cleared, that of every other entry with ForceUpdate cleared.
\<close>

theorem fill_counter_and_signals:
  assumes "fill en s c = Inr (s', c')"
  shows "c' = c + word_of_nat (length (filter (\<lambda>it. invalidates_spec (signal it)) (alist s)))
       \<and> map signal (alist s') =
           map (\<lambda>it. if tst (signal it) kSignalNoUpdate
                      then signal it AND NOT kSignalStopUpdate
                      else signal it AND NOT kSignalForceUpdate) (alist s)
       \<and> (\<forall>it t k it' t' k'. fill_step en it t k = Inr (it', t', k') \<longrightarrow>
             (k' = k + 1 \<longleftrightarrow> invalidates_spec (signal it))
             \<and> (k' = k \<longleftrightarrow> \<not> invalidates_spec (signal it)))"
proof -
  from assms obtain es t where l: "fill_loop en (alist s) s c = Inr (es, t, c')"
    and s': "s' = t\<lparr>alist := es\<rparr>"
    by (cases "fill_loop en (alist s) s c") (auto simp: fill_def)
  have "\<forall>it t k it' t' k'. fill_step en it t k = Inr (it', t', k') \<longrightarrow>
          (k' = k + 1 \<longleftrightarrow> invalidates_spec (signal it))
          \<and> (k' = k \<longleftrightarrow> \<not> invalidates_spec (signal it))"
    by (auto dest!: fill_step_result split: if_splits)
  with fill_loop_result [OF l] s' show ?thesis by simp
qed

text \<open>
  Three entries: NoUpdate with ForceUpdate (counted, StopUpdate stays clear), no bits (not
  counted), StopUpdate alone (counted, ForceUpdate stays clear).
\<close>

theorem fill_counter_and_signals_witness:
  "\<exists>s'. fill test_env
          (test_state\<lparr>alist := [cast_entry 0 10 5 0x45, cast_entry 1 20 0 0, cast_entry 2 30 0 0x41]\<rparr>) 0
        = Inr (s', 2)
      \<and> map signal (alist s') = [0x44, 0, 0x01]"
proof -
  let ?s = "test_state\<lparr>alist := [cast_entry 0 10 5 0x45, cast_entry 1 20 0 0, cast_entry 2 30 0 0x41]\<rparr>"
  have "\<exists>s' c'. fill test_env ?s 0 = Inr (s', c')"
    by (simp add: fill_def fill_step_def adjustInvalidCels_def processViewScaling_def
        setNsRect_def setNSRect_def writeSelectorValue_def writeSelector_def make_reg_def
        test_env_def test_state_def cast_entry_def plain_view_def tst_def signal_defs
        scale_signal_defs Let_def word_sle_eq word_sless_alt)
  then obtain s' c' where f: "fill test_env ?s 0 = Inr (s', c')" by blast
  from fill_counter_and_signals [OF f]
  have "c' = 2" and "map signal (alist s') = [0x44, 0, 0x01]"
    by (simp_all add: invalidates_spec_def tst_def signal_defs test_state_def cast_entry_def)
  with f show ?thesis by auto
qed

subsection \<open>Signal bits\<close>

lemma tst_clear_other: "m AND m' = 0 \<Longrightarrow> tst (sig AND NOT m) m' = tst sig m'"
proof -
  assume a: "m AND m' = 0"
  have "(sig AND NOT m) AND m' = sig AND m'"
  proof (rule bit_eqI)
    fix n
    have "\<not> bit (m AND m') n" by (simp add: a)
    then have "\<not> (bit m n \<and> bit m' n)" by (simp add: bit_and_iff)
    then show "bit ((sig AND NOT m) AND m') n = bit (sig AND m') n"
      by (auto simp: bit_and_iff bit_not_iff dest: bit_imp_le_length)
  qed
  then show ?thesis by (simp add: tst_def)
qed

lemma tst_clear_same: "m' AND NOT m = 0 \<Longrightarrow> \<not> tst (sig AND NOT m) m'"
proof -
  assume a: "m' AND NOT m = 0"
  have "(sig AND NOT m) AND m' = sig AND (m' AND NOT m)"
    by (simp add: ac_simps)
  with a show ?thesis by (simp add: tst_def)
qed

lemma tst_set_other: "m AND m' = 0 \<Longrightarrow> tst (sig OR m) m' = tst sig m'"
proof -
  assume a: "m AND m' = 0"
  have "(sig OR m) AND m' = (sig AND m') OR (m AND m')"
    by (simp add: bit.conj_disj_distrib2)
  with a show ?thesis by (simp add: tst_def)
qed

lemma tst_set_same: "m \<noteq> 0 \<Longrightarrow> tst (sig OR m) m"
proof -
  assume a: "m \<noteq> 0"
  have "(sig OR m) AND m = m"
    by (rule bit_eqI) (auto simp: bit_and_iff bit_or_iff)
  with a show ?thesis by (simp add: tst_def)
qed

subsection \<open>Iterations of a loop over the list\<close>

lemma forEach_iteration:
  assumes refl: "\<And>a. R a a"
    and trans: "\<And>a b c. R a b \<Longrightarrow> R b c \<Longrightarrow> R a c"
    and step: "\<And>it a it' b. f it a = (it', b) \<Longrightarrow> R a b"
  shows "forEach f es s = (l, s') \<Longrightarrow>
           length l = length es \<and> R s s'
           \<and> (\<forall>i<length es. \<exists>t t'. f (es ! i) t = (l ! i, t') \<and> R s t \<and> R t' s')"
proof (induction es arbitrary: s l s')
  case Nil
  then show ?case by (simp add: refl)
next
  case (Cons it its)
  obtain it1 s1 where f: "f it s = (it1, s1)" by (cases "f it s")
  obtain l2 s2 where r: "forEach f its s1 = (l2, s2)" by (cases "forEach f its s1")
  from Cons.prems f r have l: "l = it1 # l2" and s': "s' = s2" by simp_all
  note ih = Cons.IH [OF r]
  have r1: "R s s1" by (rule step [OF f])
  have "\<exists>t t'. f ((it # its) ! i) t = (l ! i, t') \<and> R s t \<and> R t' s'"
    if i: "i < length (it # its)" for i
  proof (cases i)
    case 0
    with f ih l s' refl show ?thesis by auto
  next
    case (Suc j)
    with i have "j < length its" by simp
    with ih obtain t t' where "f (its ! j) t = (l2 ! j, t')" "R s1 t" "R t' s2" by blast
    with Suc l s' trans [OF r1] show ?thesis by auto
  qed
  moreover have "R s s'" using trans [OF r1] ih s' by blast
  ultimately show ?case using ih l by simp
qed

lemma forEachReverse_iteration:
  assumes refl: "\<And>a. R a a"
    and trans: "\<And>a b c. R a b \<Longrightarrow> R b c \<Longrightarrow> R a c"
    and step: "\<And>it a it' b. f it a = (it', b) \<Longrightarrow> R a b"
    and run: "forEachReverse f es s = (l, s')"
  shows "length l = length es \<and> R s s'
           \<and> (\<forall>i<length es. \<exists>t t'. f (es ! i) t = (l ! i, t') \<and> R s t \<and> R t' s')"
proof -
  obtain l0 where f: "forEach f (rev es) s = (l0, s')" and l: "l = rev l0"
    using run by (cases "forEach f (rev es) s") (auto simp: forEachReverse_def)
  from forEach_iteration [where R = R and f = f, OF refl trans step f]
  have len: "length l0 = length es" and r: "R s s'"
    and it: "\<forall>j<length (rev es). \<exists>t t'. f (rev es ! j) t = (l0 ! j, t') \<and> R s t \<and> R t' s'"
    by simp_all
  have "\<exists>t t'. f (es ! i) t = (l ! i, t') \<and> R s t \<and> R t' s'" if i: "i < length es" for i
  proof -
    let ?j = "length es - Suc i"
    from i have j: "?j < length (rev es)" by simp
    from i have "rev es ! ?j = es ! i" by (simp add: rev_nth)
    moreover from i len have "l ! i = l0 ! ?j" by (simp add: l rev_nth)
    ultimately show ?thesis using it j by (metis (no_types, lifting))
  qed
  with len r l show ?thesis by simp
qed

lemma forEach_append:
  "forEach f (xs @ ys) s =
     (let (xs', t) = forEach f xs s; (ys', t') = forEach f ys t in (xs' @ ys', t'))"
  by (induction xs arbitrary: s) (simp_all add: Let_def split: prod.splits)

lemma forEachReverse_Cons:
  "forEachReverse f (e # es) s =
     (let (es', t) = forEachReverse f es s; (e', t') = f e t in (e' # es', t'))"
  by (simp add: forEachReverse_def forEach_append Let_def split: prod.splits)

lemma forEachReverse_Nil: "forEachReverse f [] s = ([], s)"
  by (simp add: forEachReverse_def)

lemma forEachReverse_nth:
  "i < length es \<Longrightarrow>
     fst (forEachReverse f es s) ! i
       = fst (f (es ! i) (snd (forEachReverse f (drop (Suc i) es) s)))"
proof (induction es arbitrary: i)
  case Nil
  then show ?case by simp
next
  case (Cons e es)
  show ?case
  proof (cases i)
    case 0
    then show ?thesis by (simp add: forEachReverse_Cons Let_def case_prod_unfold)
  next
    case (Suc j)
    with Cons.prems have "j < length es" by simp
    from Cons.IH [OF this] Suc show ?thesis
      by (simp add: forEachReverse_Cons Let_def case_prod_unfold)
  qed
qed

lemma forEachReverse_drop:
  "i < length es \<Longrightarrow>
     snd (forEachReverse f (drop i es) s)
       = snd (f (es ! i) (snd (forEachReverse f (drop (Suc i) es) s)))"
proof -
  assume "i < length es"
  then have "drop i es = es ! i # drop (Suc i) es" by (simp add: Cons_nth_drop_Suc)
  then show ?thesis by (simp add: forEachReverse_Cons Let_def case_prod_unfold)
qed

lemma forEachReverse_length: "length (fst (forEachReverse f es s)) = length es"
  by (induction es) (simp_all add: forEachReverse_Nil forEachReverse_Cons Let_def case_prod_unfold)

lemma forEachReverse_take_drop:
  "snd (forEachReverse f es s)
     = snd (forEachReverse f (take i es) (snd (forEachReverse f (drop i es) s)))"
proof -
  have r: "rev es = rev (drop i es) @ rev (take i es)"
    by (metis append_take_drop_id rev_append)
  show ?thesis
    unfolding forEachReverse_def r forEach_append
    by (simp add: Let_def case_prod_unfold)
qed


lemma trace_extends_refl: "trace_extends a a"
  by (simp add: trace_extends_def)

lemma trace_extends_trans: "trace_extends a b \<Longrightarrow> trace_extends b c \<Longrightarrow> trace_extends a c"
  by (auto simp: trace_extends_def)

lemma remove_extends_refl: "remove_extends a a"
  by (simp add: remove_extends_def)

lemma remove_extends_trans:
  "remove_extends a b \<Longrightarrow> remove_extends b c \<Longrightarrow> remove_extends a c"
proof -
  assume ab: "remove_extends a b" and bc: "remove_extends b c"
  have "objects c obj sel = objects a obj sel
        \<or> (sel = SEL_underBits \<and> objects c obj sel = NULL_REG)" for obj sel
  proof -
    from ab have 1: "objects b obj sel = objects a obj sel
        \<or> (sel = SEL_underBits \<and> objects b obj sel = NULL_REG)"
      by (simp add: remove_extends_def)
    from bc have 2: "objects c obj sel = objects b obj sel
        \<or> (sel = SEL_underBits \<and> objects c obj sel = NULL_REG)"
      by (simp add: remove_extends_def)
    from 1 2 show ?thesis by auto
  qed
  moreover from ab bc have "\<exists>cs. trace c = trace a @ cs" "picNotValid c = picNotValid a"
    by (auto simp: remove_extends_def)
  ultimately show ?thesis by (simp add: remove_extends_def)
qed

lemma update_remove_extends: "update_remove it a = (it', b) \<Longrightarrow> remove_extends a b"
  by (auto simp: update_remove_def remove_extends_def Let_def emit_def writeSelectorValue_def
      writeSelector_def make_reg_def NULL_REG_def split: if_splits)

lemma fillPriorityStrip_trace:
  "trace (fillPriorityStrip en it s) = trace s @
     [FillRect ((celRect it)\<lparr>r_top := CLIP (kernelPriorityToCoordinate en (priority it) - 1)
                   (r_top (celRect it)) (r_bottom (celRect it) - 1)\<rparr>)
        GFX_SCREEN_MASK_CONTROL 0 0 15]"
  by (simp add: fillPriorityStrip_def Let_def trace_emit)

lemma update_always_extends: "update_always en it a = (it', b) \<Longrightarrow> trace_extends a b"
  by (auto simp: update_always_def trace_extends_def Let_def trace_emit fillPriorityStrip_trace
      split: if_splits)

lemma update_save_extends: "update_save en it a = (it', b) \<Longrightarrow> trace_extends a b"
  by (auto simp: update_save_def trace_extends_def Let_def bitsSave_def emit_def
      writeSelector_def split: if_splits)

lemma update_draw_extends: "update_draw en it a = (it', b) \<Longrightarrow> trace_extends a b"
  by (auto simp: update_draw_def trace_extends_def Let_def trace_emit fillPriorityStrip_trace
      split: if_splits)

subsection \<open>The passes of \<^verbatim>\<open>update\<close>\<close>

lemma update_remove_stop:
  assumes "tst (signal it) kSignalStopUpdate" "\<not> tst (signal it) kSignalNoUpdate"
  shows "update_remove it t =
           (it\<lparr>signal := (signal it AND NOT kSignalStopUpdate) OR kSignalNoUpdate\<rparr>, t)"
  using assms by (simp add: update_remove_def Let_def)

lemma update_always_step:
  assumes "tst (signal it) kSignalAlwaysUpdate"
  shows "fst (update_always en it t) =
           it\<lparr>showBitsFlag := True,
              signal := signal it AND NOT (kSignalStopUpdate OR kSignalViewUpdated
                                            OR kSignalNoUpdate OR kSignalForceUpdate)\<rparr>
       \<and> trace (snd (update_always en it t)) = trace t @ [drawCel it 0]
           @ (if tst (signal it) kSignalIgnoreActor then []
              else [FillRect ((celRect it)\<lparr>r_top := CLIP (kernelPriorityToCoordinate en (priority it) - 1)
                      (r_top (celRect it)) (r_bottom (celRect it) - 1)\<rparr>)
                      GFX_SCREEN_MASK_CONTROL 0 0 15])"
proof -
  have ig: "tst (signal it AND NOT (kSignalStopUpdate OR kSignalViewUpdated
                                            OR kSignalNoUpdate OR kSignalForceUpdate)) kSignalIgnoreActor
             = tst (signal it) kSignalIgnoreActor"
    by (rule tst_clear_other) (simp add: signal_defs)
  show ?thesis using assms
    by (simp add: update_always_def Let_def ig trace_emit fillPriorityStrip_trace
        del: bit.de_Morgan_disj)
qed

lemma update_remove_iteration:
  "forEachReverse update_remove es s = (l, s') \<Longrightarrow>
     length l = length es \<and> remove_extends s s'
     \<and> (\<forall>i<length es. \<exists>t t'. update_remove (es ! i) t = (l ! i, t')
            \<and> remove_extends s t \<and> remove_extends t' s')"
  by (rule forEachReverse_iteration [where R = remove_extends])
    (auto intro: remove_extends_refl remove_extends_trans update_remove_extends)

lemma update_always_iteration:
  "forEach (update_always en) es s = (l, s') \<Longrightarrow>
     length l = length es \<and> trace_extends s s'
     \<and> (\<forall>i<length es. \<exists>t t'. update_always en (es ! i) t = (l ! i, t')
            \<and> trace_extends s t \<and> trace_extends t' s')"
  by (rule forEach_iteration [where R = trace_extends])
    (auto intro: trace_extends_refl trace_extends_trans update_always_extends)

lemma update_save_iteration:
  "forEach (update_save en) es s = (l, s') \<Longrightarrow>
     length l = length es \<and> trace_extends s s'
     \<and> (\<forall>i<length es. \<exists>t t'. update_save en (es ! i) t = (l ! i, t')
            \<and> trace_extends s t \<and> trace_extends t' s')"
  by (rule forEach_iteration [where R = trace_extends])
    (auto intro: trace_extends_refl trace_extends_trans update_save_extends)

lemma update_draw_iteration:
  "forEach (update_draw en) es s = (l, s') \<Longrightarrow>
     length l = length es \<and> trace_extends s s'
     \<and> (\<forall>i<length es. \<exists>t t'. update_draw en (es ! i) t = (l ! i, t')
            \<and> trace_extends s t \<and> trace_extends t' s')"
  by (rule forEach_iteration [where R = trace_extends])
    (auto intro: trace_extends_refl trace_extends_trans update_draw_extends)

lemma update_save_skip: "\<not> tst (signal it) kSignalNoUpdate \<Longrightarrow> update_save en it t = (it, t)"
  by (simp add: update_save_def)

lemma update_draw_skip: "\<not> tst (signal it) kSignalNoUpdate \<Longrightarrow> update_draw en it t = (it, t)"
  by (simp add: update_draw_def)

text \<open>
  C2. An entry that enters \<^verbatim>\<open>update\<close> with StopUpdate and AlwaysUpdate set and NoUpdate
  clear leaves the first loop with StopUpdate cleared and NoUpdate set and otherwise
  unchanged; in the second loop its cel is drawn (the entry's view, loop and cel, into its
  rectangle, with its priority, palette and scale), followed, unless IgnoreActor is set, by
  the priority strip over the bottom of its rectangle (the control plane, from the
  clipped priority line down), it is marked as shown, and NoUpdate, StopUpdate, ViewUpdated
  and ForceUpdate are cleared; the two later loops leave it as it is.
\<close>

theorem update_stop_always:
  assumes p1: "forEachReverse update_remove (alist s) s = (l1, s1)"
    and p2: "forEach (update_always en) l1 s1 = (l2, s2)"
    and i: "i < length (alist s)"
    and stop: "tst (signal (alist s ! i)) kSignalStopUpdate"
    and always: "tst (signal (alist s ! i)) kSignalAlwaysUpdate"
    and noupd: "\<not> tst (signal (alist s ! i)) kSignalNoUpdate"
  shows "l1 ! i = (alist s ! i)\<lparr>signal := (signal (alist s ! i) AND NOT kSignalStopUpdate) OR kSignalNoUpdate\<rparr>
       \<and> \<not> tst (signal (l1 ! i)) kSignalStopUpdate \<and> tst (signal (l1 ! i)) kSignalNoUpdate
       \<and> l2 ! i = (l1 ! i)\<lparr>showBitsFlag := True,
             signal := signal (l1 ! i) AND NOT (kSignalStopUpdate OR kSignalViewUpdated
                                            OR kSignalNoUpdate OR kSignalForceUpdate)\<rparr>
       \<and> showBitsFlag (l2 ! i)
       \<and> \<not> tst (signal (l2 ! i)) kSignalNoUpdate \<and> \<not> tst (signal (l2 ! i)) kSignalStopUpdate
       \<and> \<not> tst (signal (l2 ! i)) kSignalViewUpdated \<and> \<not> tst (signal (l2 ! i)) kSignalForceUpdate
       \<and> (\<exists>pre post. trace s2 = trace s1 @ pre
             @ [DrawCel (viewId (alist s ! i)) (loopNo (alist s ! i)) (celNo (alist s ! i))
                  (celRect (alist s ! i)) (priority (alist s ! i)) (paletteNo (alist s ! i))
                  (scaleX (alist s ! i)) (scaleY (alist s ! i)) 0]
             @ (if tst (signal (alist s ! i)) kSignalIgnoreActor then []
                else [FillRect ((celRect (alist s ! i))\<lparr>r_top :=
                        CLIP (kernelPriorityToCoordinate en (priority (alist s ! i)) - 1)
                          (r_top (celRect (alist s ! i))) (r_bottom (celRect (alist s ! i)) - 1)\<rparr>)
                        GFX_SCREEN_MASK_CONTROL 0 0 15])
             @ post)
       \<and> alist (update en s) ! i = l2 ! i
       \<and> trace_extends s2 (update en s)"
proof -
  let ?e = "alist s ! i"
  let ?e1 = "?e\<lparr>signal := (signal ?e AND NOT kSignalStopUpdate) OR kSignalNoUpdate\<rparr>"
  let ?m = "kSignalStopUpdate OR kSignalViewUpdated OR kSignalNoUpdate OR kSignalForceUpdate"
  from update_remove_iteration [OF p1] i
  obtain t t' where len1: "length l1 = length (alist s)"
    and st1: "update_remove ?e t = (l1 ! i, t')" by blast
  from st1 update_remove_stop [OF stop noupd] have e1: "l1 ! i = ?e1" by simp
  have b1: "\<not> tst (signal ?e1) kSignalStopUpdate"
  proof -
    have "tst ((signal ?e AND NOT kSignalStopUpdate) OR kSignalNoUpdate) kSignalStopUpdate
            = tst (signal ?e AND NOT kSignalStopUpdate) kSignalStopUpdate"
      by (rule tst_set_other) (simp add: signal_defs)
    moreover have "\<not> tst (signal ?e AND NOT kSignalStopUpdate) kSignalStopUpdate"
      by (rule tst_clear_same) simp
    ultimately show ?thesis by simp
  qed
  have b2: "tst (signal ?e1) kSignalNoUpdate"
    using tst_set_same [of kSignalNoUpdate] by (simp add: signal_defs)
  have a1: "tst (signal ?e1) kSignalAlwaysUpdate"
  proof -
    have "tst ((signal ?e AND NOT kSignalStopUpdate) OR kSignalNoUpdate) kSignalAlwaysUpdate
            = tst (signal ?e AND NOT kSignalStopUpdate) kSignalAlwaysUpdate"
      by (rule tst_set_other) (simp add: signal_defs)
    moreover have "tst (signal ?e AND NOT kSignalStopUpdate) kSignalAlwaysUpdate
            = tst (signal ?e) kSignalAlwaysUpdate"
      by (rule tst_clear_other) (simp add: signal_defs)
    ultimately show ?thesis using always by simp
  qed
  have ig1: "tst (signal ?e1) kSignalIgnoreActor = tst (signal ?e) kSignalIgnoreActor"
  proof -
    have "tst ((signal ?e AND NOT kSignalStopUpdate) OR kSignalNoUpdate) kSignalIgnoreActor
            = tst (signal ?e AND NOT kSignalStopUpdate) kSignalIgnoreActor"
      by (rule tst_set_other) (simp add: signal_defs)
    moreover have "tst (signal ?e AND NOT kSignalStopUpdate) kSignalIgnoreActor
            = tst (signal ?e) kSignalIgnoreActor"
      by (rule tst_clear_other) (simp add: signal_defs)
    ultimately show ?thesis by simp
  qed
  from update_always_iteration [OF p2] i len1
  obtain u u' where len2: "length l2 = length l1"
    and st2: "update_always en (l1 ! i) u = (l2 ! i, u')"
    and pre: "trace_extends s1 u" and post: "trace_extends u' s2" by (metis (no_types, lifting))
  from update_always_step [OF a1, of en u] st2 e1
  have e2: "l2 ! i = ?e1\<lparr>showBitsFlag := True, signal := signal ?e1 AND NOT ?m\<rparr>"
    and tr: "trace u' = trace u @ [drawCel ?e1 0]
           @ (if tst (signal ?e1) kSignalIgnoreActor then []
              else [FillRect ((celRect ?e1)\<lparr>r_top := CLIP (kernelPriorityToCoordinate en (priority ?e1) - 1)
                      (r_top (celRect ?e1)) (r_bottom (celRect ?e1) - 1)\<rparr>)
                      GFX_SCREEN_MASK_CONTROL 0 0 15])"
    by simp_all
  have c: "\<not> tst (signal ?e1 AND NOT ?m) kSignalNoUpdate"
      "\<not> tst (signal ?e1 AND NOT ?m) kSignalStopUpdate"
      "\<not> tst (signal ?e1 AND NOT ?m) kSignalViewUpdated"
      "\<not> tst (signal ?e1 AND NOT ?m) kSignalForceUpdate"
    by (rule tst_clear_same, simp add: signal_defs)+
  have trace2: "\<exists>pre post. trace s2 = trace s1 @ pre
             @ [DrawCel (viewId ?e) (loopNo ?e) (celNo ?e) (celRect ?e) (priority ?e) (paletteNo ?e)
                  (scaleX ?e) (scaleY ?e) 0]
             @ (if tst (signal ?e) kSignalIgnoreActor then []
                else [FillRect ((celRect ?e)\<lparr>r_top :=
                        CLIP (kernelPriorityToCoordinate en (priority ?e) - 1)
                          (r_top (celRect ?e)) (r_bottom (celRect ?e) - 1)\<rparr>)
                        GFX_SCREEN_MASK_CONTROL 0 0 15])
             @ post"
  proof -
    from pre obtain cs where 1: "trace u = trace s1 @ cs" by (auto simp: trace_extends_def)
    from post obtain ds where 2: "trace s2 = trace u' @ ds" by (auto simp: trace_extends_def)
    have d: "drawCel ?e1 0 = DrawCel (viewId ?e) (loopNo ?e) (celNo ?e) (celRect ?e) (priority ?e)
        (paletteNo ?e) (scaleX ?e) (scaleY ?e) 0"
      by (simp add: drawCel_def)
    from 1 2 tr ig1 d show ?thesis by (intro exI [of _ cs] exI [of _ ds]) simp
  qed
  obtain l3 s3 where p3: "forEach (update_save en) l2 s2 = (l3, s3)"
    by (cases "forEach (update_save en) l2 s2")
  obtain l4 s4 where p4: "forEach (update_draw en) l3 s3 = (l4, s4)"
    by (cases "forEach (update_draw en) l3 s3")
  have upd: "update en s = s4\<lparr>alist := l4\<rparr>"
    using p1 p2 p3 p4 by (simp add: update_def)
  from update_save_iteration [OF p3] i len1 len2
  obtain w w' where len3: "length l3 = length l2" and tr3: "trace_extends s2 s3"
    and st3: "update_save en (l2 ! i) w = (l3 ! i, w')" by (metis (no_types, lifting))
  from st3 e2 c(1) have e3: "l3 ! i = l2 ! i" by (simp add: update_save_skip)
  from update_draw_iteration [OF p4] i len1 len2 len3
  obtain x x' where tr4: "trace_extends s3 s4"
    and st4: "update_draw en (l3 ! i) x = (l4 ! i, x')" by (metis (no_types, lifting))
  from st4 e3 e2 c(1) have e4: "l4 ! i = l2 ! i" by (simp add: update_draw_skip)
  have fin: "alist (update en s) ! i = l2 ! i" by (simp add: upd e4)
  have ext: "trace_extends s2 (update en s)"
    using trace_extends_trans [OF tr3 tr4] by (simp add: upd trace_extends_def)
  show ?thesis
    using e1 b1 b2 e2 c trace2 fin ext by simp
qed


text \<open>
  An entry with StopUpdate and AlwaysUpdate that shows cel 1 of loop 2 of view 3, before
  one without any bit: that cel is drawn, and nothing else.
\<close>

theorem update_stop_always_witness:
  "alist (update test_env stop_always_state) ! 0 = (posed_entry 0 0x20 3 2 1)\<lparr>showBitsFlag := True\<rparr>
   \<and> trace (update test_env stop_always_state) =
       [DrawCel 3 2 1 \<lparr>r_top = 65506, r_left = 50, r_bottom = 10, r_right = 70\<rparr> 9 2 100 90 0,
        FillRect \<lparr>r_top = 9, r_left = 50, r_bottom = 10, r_right = 70\<rparr> 4 0 0 15]"
proof -
  let ?s = stop_always_state
  obtain l1 s1 where p1: "forEachReverse update_remove (alist ?s) ?s = (l1, s1)"
    by (cases "forEachReverse update_remove (alist ?s) ?s")
  obtain l2 s2 where p2: "forEach (update_always test_env) l1 s1 = (l2, s2)"
    by (cases "forEach (update_always test_env) l1 s1")
  have i: "0 < length (alist ?s)"
    and stop: "tst (signal (alist ?s ! 0)) kSignalStopUpdate"
    and always: "tst (signal (alist ?s ! 0)) kSignalAlwaysUpdate"
    and noupd: "\<not> tst (signal (alist ?s ! 0)) kSignalNoUpdate"
    by (simp_all add: stop_always_state_def test_state_def posed_entry_def cast_entry_def tst_def
        signal_defs)
  from update_stop_always [OF p1 p2 i stop always noupd]
  have "showBitsFlag (l2 ! 0)" by simp
  then show ?thesis
    by (simp add: update_def forEachReverse_def update_remove_def update_always_def
        update_save_def update_draw_def fillPriorityStrip_def drawCel_def emit_def CLIP_def
        tst_def signal_defs mask_defs Let_def test_env_def test_state_def posed_entry_def
        cast_entry_def stop_always_state_def word_sless_alt)
qed

lemma remove_extends_objects:
  "remove_extends a b \<Longrightarrow>
     objects b obj sel = objects a obj sel \<or> (sel = SEL_underBits \<and> objects b obj sel = NULL_REG)"
  by (simp add: remove_extends_def)

lemma update_remove_noupdate_exact:
  assumes nu: "tst (signal it) kSignalNoUpdate"
  shows "update_remove it t =
     (it\<lparr>showBitsFlag := showBitsFlag it
                            \<or> (\<not> tst (signal it) kSignalRemoveView \<and> picNotValid t \<noteq> 1),
         signal := (if tst (signal it) kSignalViewUpdated
                    then (signal it AND NOT kSignalForceUpdate)
                           AND NOT (kSignalViewUpdated OR kSignalNoUpdate)
                    else signal it AND NOT kSignalForceUpdate)\<rparr>,
      if \<not> tst (signal it) kSignalRemoveView
      then writeSelectorValue (object it) SEL_underBits 0
             (emit (if picNotValid t \<noteq> 1
                    then BitsRestore (readSelector t (object it) SEL_underBits)
                    else BitsFree (readSelector t (object it) SEL_underBits)) t)
      else t)"
proof -
  have vu: "tst (signal it AND NOT kSignalForceUpdate) kSignalViewUpdated
              = tst (signal it) kSignalViewUpdated"
    by (rule tst_clear_other) (simp add: signal_defs)
  from nu show ?thesis
    by (simp add: update_remove_def Let_def vu del: bit.de_Morgan_disj)
qed

lemma update_remove_other:
  "obj \<noteq> object it \<Longrightarrow> objects (snd (update_remove it t)) obj = objects t obj"
  by (simp add: update_remove_def Let_def emit_def writeSelectorValue_def writeSelector_def
      split: if_splits)

lemma forEachReverse_update_remove_other:
  "obj \<notin> object ` set es \<Longrightarrow>
     objects (snd (forEachReverse update_remove es s)) obj = objects s obj"
  by (induction es)
    (simp_all add: forEachReverse_Nil forEachReverse_Cons Let_def case_prod_unfold
      update_remove_other)

lemma forEachReverse_update_remove_extends:
  "remove_extends s (snd (forEachReverse update_remove es s))"
  using update_remove_iteration [of es s "fst (forEachReverse update_remove es s)"
      "snd (forEachReverse update_remove es s)"]
  by simp

lemma update_later_passes:
  assumes p1: "forEachReverse update_remove (alist s) s = (l1, s1)"
  shows "trace_extends s1 (update en s)"
proof -
  obtain l2 s2 where p2: "forEach (update_always en) l1 s1 = (l2, s2)"
    by (cases "forEach (update_always en) l1 s1")
  obtain l3 s3 where p3: "forEach (update_save en) l2 s2 = (l3, s3)"
    by (cases "forEach (update_save en) l2 s2")
  obtain l4 s4 where p4: "forEach (update_draw en) l3 s3 = (l4, s4)"
    by (cases "forEach (update_draw en) l3 s3")
  have upd: "update en s = s4\<lparr>alist := l4\<rparr>"
    using p1 p2 p3 p4 by (simp add: update_def)
  from update_always_iteration [OF p2] have 2: "trace_extends s1 s2" by simp
  from update_save_iteration [OF p3] have 3: "trace_extends s2 s3" by simp
  from update_draw_iteration [OF p4] have 4: "trace_extends s3 s4" by simp
  from trace_extends_trans [OF 2 trace_extends_trans [OF 3 4]]
  show ?thesis by (simp add: upd trace_extends_def)
qed

text \<open>
  C3, as the code has it. The first loop of \<^verbatim>\<open>update\<close> walks the list backwards: entry
  \<open>i\<close> is processed in the state \<open>t\<close> that the entries after it have left, in which the
  screen's \<^verbatim>\<open>_picNotValid\<close> is as on entry. If the entry has NoUpdate and not RemoveView,
  the handle \<open>h\<close> that its object's \<open>underBits\<close> holds in \<open>t\<close> is restored when
  \<^verbatim>\<open>_picNotValid\<close> is not 1 (that is 0, the valid screen, but also 2) and freed when it is
  1, and \<open>underBits\<close> is then set to 0: the state after the entry is \<open>t\<close> with this one
  call and this one write, and \<open>underBits\<close> is still 0 when the loop ends. The handle is
  the one the object held on entry to \<^verbatim>\<open>update\<close> when no later entry of the list is on the
  same object. Every NoUpdate entry leaves the loop with ForceUpdate cleared, and with
  ViewUpdated and NoUpdate cleared if ViewUpdated was set; it is marked as shown when its
  background was restored and keeps its mark otherwise. The calls of the loop are the
  first calls of \<^verbatim>\<open>update\<close>.
\<close>

theorem update_remove_noupdate:
  assumes i: "i < length (alist s)"
    and e: "e = alist s ! i"
    and nu: "tst (signal e) kSignalNoUpdate"
    and t: "t = snd (forEachReverse update_remove (drop (Suc i) (alist s)) s)"
    and h: "h = readSelector t (object e) SEL_underBits"
    and p1: "forEachReverse update_remove (alist s) s = (l1, s1)"
  shows "picNotValid t = picNotValid s \<and> trace_extends s t
       \<and> snd (forEachReverse update_remove (drop i (alist s)) s)
           = (if \<not> tst (signal e) kSignalRemoveView
              then writeSelectorValue (object e) SEL_underBits 0
                     (emit (if picNotValid s \<noteq> 1 then BitsRestore h else BitsFree h) t)
              else t)
       \<and> ((\<forall>j. i < j \<and> j < length (alist s) \<longrightarrow> object (alist s ! j) \<noteq> object e)
            \<longrightarrow> h = readSelector s (object e) SEL_underBits)
       \<and> (\<not> tst (signal e) kSignalRemoveView \<longrightarrow>
            (\<exists>post. trace s1 = trace t
                 @ [if picNotValid s \<noteq> 1 then BitsRestore h else BitsFree h] @ post)
            \<and> readSelector s1 (object e) SEL_underBits = NULL_REG)
       \<and> l1 ! i = e\<lparr>showBitsFlag := showBitsFlag e
                          \<or> (\<not> tst (signal e) kSignalRemoveView \<and> picNotValid s \<noteq> 1),
                      signal := (if tst (signal e) kSignalViewUpdated
                                 then (signal e AND NOT kSignalForceUpdate)
                                        AND NOT (kSignalViewUpdated OR kSignalNoUpdate)
                                 else signal e AND NOT kSignalForceUpdate)\<rparr>
       \<and> \<not> tst (signal (l1 ! i)) kSignalForceUpdate
       \<and> (tst (signal e) kSignalViewUpdated \<longrightarrow>
            \<not> tst (signal (l1 ! i)) kSignalViewUpdated \<and> \<not> tst (signal (l1 ! i)) kSignalNoUpdate)
       \<and> trace_extends s1 (update en s)"
proof -
  let ?es = "alist s"
  let ?call = "if picNotValid s \<noteq> 1 then BitsRestore h else BitsFree h"
  let ?ti = "snd (forEachReverse update_remove (drop i ?es) s)"
  have ext: "remove_extends s t"
    unfolding t by (rule forEachReverse_update_remove_extends)
  then have pvt: "picNotValid t = picNotValid s" and trt: "trace_extends s t"
    by (simp_all add: remove_extends_def trace_extends_def)
  note step = update_remove_noupdate_exact [OF nu, of t]
  have ti: "?ti = (if \<not> tst (signal e) kSignalRemoveView
              then writeSelectorValue (object e) SEL_underBits 0 (emit ?call t) else t)"
    using forEachReverse_drop [OF i, of update_remove s] step
    by (simp add: e [symmetric] t [symmetric] h [symmetric] pvt)
  have same: "h = readSelector s (object e) SEL_underBits"
    if later: "\<forall>j. i < j \<and> j < length ?es \<longrightarrow> object (?es ! j) \<noteq> object e"
  proof -
    have "object e \<notin> object ` set (drop (Suc i) ?es)"
    proof
      assume "object e \<in> object ` set (drop (Suc i) ?es)"
      then obtain x where x: "x \<in> set (drop (Suc i) ?es)" and o: "object x = object e" by auto
      from x obtain k where k: "k < length (drop (Suc i) ?es)" and d: "drop (Suc i) ?es ! k = x"
        by (auto simp: in_set_conv_nth)
      from k i have "Suc i + k < length ?es" by simp
      moreover from d i have "?es ! (Suc i + k) = x" by simp
      ultimately show False using later o by auto
    qed
    from forEachReverse_update_remove_other [OF this, of s]
    show ?thesis by (simp add: h t readSelector_def)
  qed
  have s1: "s1 = snd (forEachReverse update_remove (take i ?es) ?ti)"
    using forEachReverse_take_drop [of update_remove ?es s i] p1 by simp
  have post: "remove_extends ?ti s1"
    unfolding s1 by (rule forEachReverse_update_remove_extends)
  have bits: "(\<exists>post. trace s1 = trace t @ [?call] @ post)
            \<and> readSelector s1 (object e) SEL_underBits = NULL_REG"
    if rv: "\<not> tst (signal e) kSignalRemoveView"
  proof -
    from ti rv have tr: "trace ?ti = trace t @ [?call]"
      and cl: "objects ?ti (object e) SEL_underBits = NULL_REG"
      by (simp_all add: writeSelectorValue_def writeSelector_def emit_def make_reg_def NULL_REG_def)
    from post obtain ds where "trace s1 = trace ?ti @ ds" by (auto simp: remove_extends_def)
    with tr have 1: "\<exists>post. trace s1 = trace t @ [?call] @ post" by simp
    from remove_extends_objects [OF post, of "object e" SEL_underBits] cl
    have "readSelector s1 (object e) SEL_underBits = NULL_REG"
      by (auto simp: readSelector_def)
    with 1 show ?thesis by simp
  qed
  have li: "l1 ! i = fst (update_remove e t)"
    using forEachReverse_nth [OF i, of update_remove s] p1 by (simp add: e t)
  let ?sig = "if tst (signal e) kSignalViewUpdated
              then (signal e AND NOT kSignalForceUpdate) AND NOT (kSignalViewUpdated OR kSignalNoUpdate)
              else signal e AND NOT kSignalForceUpdate"
  have ent: "l1 ! i = e\<lparr>showBitsFlag := showBitsFlag e
                          \<or> (\<not> tst (signal e) kSignalRemoveView \<and> picNotValid s \<noteq> 1),
                      signal := ?sig\<rparr>"
    by (simp only: li step fst_conv pvt)
  have sg: "signal (l1 ! i) = ?sig" by (simp only: ent) simp
  have force: "\<not> tst (signal (l1 ! i)) kSignalForceUpdate"
  proof (cases "tst (signal e) kSignalViewUpdated")
    case True
    have "tst ((signal e AND NOT kSignalForceUpdate) AND NOT (kSignalViewUpdated OR kSignalNoUpdate))
            kSignalForceUpdate = tst (signal e AND NOT kSignalForceUpdate) kSignalForceUpdate"
      by (rule tst_clear_other) (simp add: signal_defs)
    moreover have "\<not> tst (signal e AND NOT kSignalForceUpdate) kSignalForceUpdate"
      by (rule tst_clear_same) simp
    ultimately show ?thesis using True by (simp add: sg del: bit.de_Morgan_disj)
  next
    case False
    have "\<not> tst (signal e AND NOT kSignalForceUpdate) kSignalForceUpdate"
      by (rule tst_clear_same) simp
    then show ?thesis using False by (simp add: sg)
  qed
  have viewupd: "\<not> tst (signal (l1 ! i)) kSignalViewUpdated \<and> \<not> tst (signal (l1 ! i)) kSignalNoUpdate"
    if "tst (signal e) kSignalViewUpdated"
  proof -
    have "\<not> tst ((signal e AND NOT kSignalForceUpdate) AND NOT (kSignalViewUpdated OR kSignalNoUpdate))
            kSignalViewUpdated"
      "\<not> tst ((signal e AND NOT kSignalForceUpdate) AND NOT (kSignalViewUpdated OR kSignalNoUpdate))
            kSignalNoUpdate"
      by (rule tst_clear_same, simp add: signal_defs)+
    then show ?thesis using that by (simp add: sg del: bit.de_Morgan_disj)
  qed
  note link = update_later_passes [OF p1, of en]
  from pvt trt ti same bits ent force viewupd link show ?thesis by blast
qed

text \<open>
  The statement of C3 fails when the screen is invalid at level 2: the entry has NoUpdate
  without RemoveView, the screen is not valid, and the first loop restores the handle
  instead of freeing it.
\<close>

theorem update_remove_invalid_counterexample:
  "picNotValid (noupdate_state 2) \<noteq> 0
   \<and> tst (signal (alist (noupdate_state 2) ! 0)) kSignalNoUpdate
   \<and> \<not> tst (signal (alist (noupdate_state 2) ! 0)) kSignalRemoveView
   \<and> trace (snd (forEachReverse update_remove (alist (noupdate_state 2)) (noupdate_state 2)))
       = [BitsRestore (Reg 2 7)]"
  by (simp add: noupdate_state_def test_state_def cast_entry_def forEachReverse_def
      update_remove_def emit_def writeSelectorValue_def writeSelector_def readSelector_def
      tst_def signal_defs Let_def)

text \<open>
  Two NoUpdate entries with \<^verbatim>\<open>_picNotValid\<close> 1: the background of the second entry is
  freed before that of the first, both \<open>underBits\<close> are cleared, the second entry, which
  had ViewUpdated, loses NoUpdate; and these are the first calls of \<^verbatim>\<open>update\<close>. With the
  valid screen the two backgrounds are restored in the same order.
\<close>

theorem update_remove_noupdate_witness:
  "trace (snd (forEachReverse update_remove (alist (noupdate_pair_state 1)) (noupdate_pair_state 1)))
     = [BitsFree (Reg 2 8), BitsFree (Reg 2 7)]
   \<and> readSelector (snd (forEachReverse update_remove (alist (noupdate_pair_state 1))
         (noupdate_pair_state 1))) (Reg 1 0) SEL_underBits = NULL_REG
   \<and> map signal (fst (forEachReverse update_remove (alist (noupdate_pair_state 1))
         (noupdate_pair_state 1))) = [0x0004, 0]
   \<and> take 2 (trace (update test_env (noupdate_pair_state 1)))
       = [BitsFree (Reg 2 8), BitsFree (Reg 2 7)]
   \<and> take 2 (trace (update test_env (noupdate_pair_state 0)))
       = [BitsRestore (Reg 2 8), BitsRestore (Reg 2 7)]"
proof -
  let ?s = "noupdate_pair_state 1"
  let ?t = "snd (forEachReverse update_remove (drop (Suc 0) (alist ?s)) ?s)"
  obtain l1 s1 where p1: "forEachReverse update_remove (alist ?s) ?s = (l1, s1)"
    by (cases "forEachReverse update_remove (alist ?s) ?s")
  have i0: "0 < length (alist ?s)" and i1: "1 < length (alist ?s)"
    and nu0: "tst (signal (alist ?s ! 0)) kSignalNoUpdate"
    and nu1: "tst (signal (alist ?s ! 1)) kSignalNoUpdate"
    and rv0: "\<not> tst (signal (alist ?s ! 0)) kSignalRemoveView"
    and vu1: "tst (signal (alist ?s ! 1)) kSignalViewUpdated"
    and ob: "object (alist ?s ! 0) = Reg 1 0"
    by (simp_all add: noupdate_pair_state_def test_state_def cast_entry_def tst_def signal_defs)
  have later: "\<forall>j. 0 < j \<and> j < length (alist ?s) \<longrightarrow> object (alist ?s ! j) \<noteq> object (alist ?s ! 0)"
    by (auto simp: noupdate_pair_state_def test_state_def cast_entry_def less_Suc_eq)
  note r0 = update_remove_noupdate [OF i0 refl nu0 refl refl p1, of test_env]
  note r1 = update_remove_noupdate [OF i1 refl nu1 refl refl p1, of test_env]
  from r0 later have h0: "readSelector ?t (object (alist ?s ! 0)) SEL_underBits
      = readSelector ?s (object (alist ?s ! 0)) SEL_underBits"
    by blast
  from r0 rv0 ob have cl: "readSelector s1 (Reg 1 0) SEL_underBits = NULL_REG"
    by simp
  from r1 vu1 have "\<not> tst (signal (l1 ! 1)) kSignalNoUpdate" by blast
  from r0 have "trace_extends s1 (update test_env ?s)" by blast
  have pass: "trace s1 = [BitsFree (Reg 2 8), BitsFree (Reg 2 7)]"
    and sigs: "map signal l1 = [0x0004, 0]"
    using p1
    by (auto simp: noupdate_pair_state_def test_state_def cast_entry_def forEachReverse_def
        update_remove_def emit_def writeSelectorValue_def writeSelector_def readSelector_def
        tst_def signal_defs Let_def)
  have upd1: "take 2 (trace (update test_env ?s)) = [BitsFree (Reg 2 8), BitsFree (Reg 2 7)]"
    using \<open>trace_extends s1 (update test_env ?s)\<close> pass by (auto simp: trace_extends_def)
  have upd0: "take 2 (trace (update test_env (noupdate_pair_state 0)))
       = [BitsRestore (Reg 2 8), BitsRestore (Reg 2 7)]"
    by (simp add: update_def forEachReverse_def update_remove_def update_always_def
        update_save_def update_draw_def fillPriorityStrip_def drawCel_def bitsSave_def emit_def
        CLIP_def writeSelectorValue_def writeSelector_def readSelector_def make_reg_def
        tst_def signal_defs mask_defs Let_def test_env_def test_state_def cast_entry_def
        noupdate_pair_state_def word_sless_alt)
  from pass sigs cl upd1 upd0 show ?thesis by (simp add: p1)
qed

subsection \<open>Writing back, restoring and disposing\<close>

lemma forEach_restoreAndDelete_write:
  "forEach restoreAndDelete_write es s
     = (es, fold (\<lambda>it. writeSelectorValue (object it) SEL_signal (signal it)) es s)"
  by (induction es arbitrary: s) (simp_all add: restoreAndDelete_write_def)

lemma lacks_both:
  "(sig AND (kSignalNoUpdate OR kSignalRemoveView) = 0)
     \<longleftrightarrow> \<not> tst sig kSignalNoUpdate \<and> \<not> tst sig kSignalRemoveView"
  using tst_OR [of sig kSignalNoUpdate kSignalRemoveView] by (auto simp: tst_def)

text \<open>
  C6. \<^verbatim>\<open>restoreAndDelete\<close> first writes the signal of every entry to its object, in list
  order (the state \<open>s1\<close>), and only then walks the list backwards from \<open>s1\<close>. Entry \<open>i\<close>
  is processed in the state \<open>t\<close> that the entries after it leave, script disposals
  included: its signal is read again from the object in \<open>t\<close>; the background in its
  \<open>underBits\<close> is restored and \<open>underBits\<close> cleared exactly if that signal has neither
  NoUpdate nor RemoveView; the object's \<^verbatim>\<open>delete\<close> method is invoked exactly if it has
  DisposeMe, on the state the restoration left.
\<close>

theorem restoreAndDelete_order:
  assumes i: "i < length (alist s)"
    and s1: "s1 = fold (\<lambda>it. writeSelectorValue (object it) SEL_signal (signal it)) (alist s) s"
    and t: "t = snd (forEachReverse (restoreAndDelete_dispose en) (drop (Suc i) (alist s)) s1)"
    and sig: "sig = readSelectorValue t (object (alist s ! i)) SEL_signal"
    and r: "r = (if \<not> tst sig kSignalNoUpdate \<and> \<not> tst sig kSignalRemoveView
                 then writeSelectorValue (object (alist s ! i)) SEL_underBits 0
                        (emit (BitsRestore (readSelector t (object (alist s ! i)) SEL_underBits)) t)
                 else t)"
  shows "snd (forEachReverse (restoreAndDelete_dispose en) (drop i (alist s)) s1)
           = (if tst sig kSignalDisposeMe
              then delete_method en (object (alist s ! i)) (emit (InvokeDelete (object (alist s ! i))) r)
              else r)
       \<and> alist (restoreAndDelete en s) ! i = (alist s ! i)\<lparr>signal := sig\<rparr>
       \<and> length (alist (restoreAndDelete en s)) = length (alist s)
       \<and> restoreAndDelete en s
           = (snd (forEachReverse (restoreAndDelete_dispose en) (alist s) s1))
               \<lparr>alist := alist (restoreAndDelete en s)\<rparr>"
proof -
  let ?f = "restoreAndDelete_dispose en"
  let ?e = "alist s ! i"
  have step: "?f ?e t = (?e\<lparr>signal := sig\<rparr>,
      if tst sig kSignalDisposeMe
      then delete_method en (object ?e) (emit (InvokeDelete (object ?e)) r) else r)"
    by (simp add: restoreAndDelete_dispose_def Let_def sig r lacks_both)
  have rd: "restoreAndDelete en s
      = (snd (forEachReverse ?f (alist s) s1))\<lparr>alist := fst (forEachReverse ?f (alist s) s1)\<rparr>"
    by (simp add: restoreAndDelete_def forEach_restoreAndDelete_write s1 case_prod_unfold Let_def)
  have al: "alist (restoreAndDelete en s) = fst (forEachReverse ?f (alist s) s1)"
    by (simp add: rd)
  from forEachReverse_drop [OF i, of ?f s1] step t
  have 1: "snd (forEachReverse ?f (drop i (alist s)) s1)
           = (if tst sig kSignalDisposeMe
              then delete_method en (object ?e) (emit (InvokeDelete (object ?e)) r) else r)"
    by simp
  from forEachReverse_nth [OF i, of ?f s1] step t
  have 2: "alist (restoreAndDelete en s) ! i = ?e\<lparr>signal := sig\<rparr>"
    by (simp add: al)
  have 3: "length (alist (restoreAndDelete en s)) = length (alist s)"
    by (simp add: al forEachReverse_length)
  from 1 2 3 rd show ?thesis by (simp add: al)
qed

text \<open>
  Two entries, the second with DisposeMe, whose \<^verbatim>\<open>delete\<close> sets NoUpdate in the signal
  of the first object: the first entry is processed with the new signal and its
  background is not restored, as it is when the script leaves the signal alone.
\<close>

theorem restoreAndDelete_order_witness:
  "trace (restoreAndDelete sibling_env sibling_state)
     = [BitsRestore (Reg 2 1), InvokeDelete (Reg 1 1)]
   \<and> map signal (alist (restoreAndDelete sibling_env sibling_state)) = [0x0004, 0x8000]
   \<and> trace (restoreAndDelete test_env sibling_state)
     = [BitsRestore (Reg 2 1), InvokeDelete (Reg 1 1), BitsRestore (Reg 2 0)]"
proof -
  have i: "0 < length (alist sibling_state)"
    by (simp add: sibling_state_def)
  from restoreAndDelete_order [of 0 sibling_state _ _ sibling_env, OF i refl refl refl refl]
  have "length (alist (restoreAndDelete sibling_env sibling_state)) = length (alist sibling_state)"
    by simp
  then show ?thesis
    by (simp add: restoreAndDelete_def restoreAndDelete_write_def restoreAndDelete_dispose_def
        forEachReverse_def sibling_env_def sibling_state_def test_env_def test_state_def
        cast_entry_def emit_def writeSelectorValue_def writeSelector_def readSelector_def
        readSelectorValue_def make_reg_def tst_def signal_defs Let_def)
qed

subsection \<open>Loop and cel numbers out of range\<close>

text \<open>
  C4. With the view's loop count and the cel count of the resolved loop not negative as
  \<^verbatim>\<open>int16\<close>: a loop number at or above the loop count is resolved to 0 and 0 is written
  to the object's \<open>loop\<close>; a negative loop number is resolved to the loop count minus one
  and the object's \<open>loop\<close> is left as it is; any other loop number stays. The cel number
  is then resolved in the same way against the cel count of the resolved loop. Nothing
  else of the entry or of the object store changes.
\<close>

theorem adjustInvalidCels_resolves:
  assumes run: "adjustInvalidCels v it s = (it', s')"
    and lc: "0 \<le>s getLoopCount v"
    and cc: "0 \<le>s getCelCount v (loopNo it')"
  shows "(getLoopCount v \<le>s loopNo it \<longrightarrow>
            loopNo it' = 0 \<and> readSelectorValue s' (object it) SEL_loop = 0)
       \<and> (loopNo it <s 0 \<longrightarrow>
            loopNo it' = getLoopCount v - 1
            \<and> objects s' (object it) SEL_loop = objects s (object it) SEL_loop)
       \<and> (\<not> getLoopCount v \<le>s loopNo it \<and> \<not> loopNo it <s 0 \<longrightarrow>
            loopNo it' = loopNo it
            \<and> objects s' (object it) SEL_loop = objects s (object it) SEL_loop)
       \<and> (getCelCount v (loopNo it') \<le>s celNo it \<longrightarrow>
            celNo it' = 0 \<and> readSelectorValue s' (object it) SEL_cel = 0)
       \<and> (celNo it <s 0 \<longrightarrow>
            celNo it' = getCelCount v (loopNo it') - 1
            \<and> objects s' (object it) SEL_cel = objects s (object it) SEL_cel)
       \<and> (\<not> getCelCount v (loopNo it') \<le>s celNo it \<and> \<not> celNo it <s 0 \<longrightarrow>
            celNo it' = celNo it
            \<and> objects s' (object it) SEL_cel = objects s (object it) SEL_cel)
       \<and> (\<forall>obj sel. obj \<noteq> object it \<or> (sel \<noteq> SEL_loop \<and> sel \<noteq> SEL_cel) \<longrightarrow>
            objects s' obj sel = objects s obj sel)
       \<and> it' = it\<lparr>loopNo := loopNo it', celNo := celNo it'\<rparr>"
  using run lc cc
  by (auto simp: adjustInvalidCels_def Let_def writeSelectorValue_def writeSelector_def
      readSelectorValue_def readSelector_def make_reg_def word_sle_eq word_sless_alt
      split: if_splits)

text \<open>
  A view of 4 loops with 3 cels each, an object whose selectors all hold 77: loop -1 is
  resolved to 3 and not written, cel 9 to 0 and written; loop 9 is resolved to 0 and
  written, cel -1 to 2 and not written.
\<close>

theorem adjustInvalidCels_resolves_witness:
  "adjustInvalidCels plain_view ((cast_entry 0 10 5 0)\<lparr>loopNo := - 1, celNo := 9\<rparr>)
       (test_state\<lparr>objects := (\<lambda>_ _. Reg 0 77)\<rparr>)
     = ((cast_entry 0 10 5 0)\<lparr>loopNo := 3, celNo := 0\<rparr>,
        test_state\<lparr>objects := (\<lambda>_ _. Reg 0 77)(Reg 1 0 := (\<lambda>_. Reg 0 77)(SEL_cel := Reg 0 0))\<rparr>)
   \<and> adjustInvalidCels plain_view ((cast_entry 0 10 5 0)\<lparr>loopNo := 9, celNo := - 1\<rparr>)
       (test_state\<lparr>objects := (\<lambda>_ _. Reg 0 77)\<rparr>)
     = ((cast_entry 0 10 5 0)\<lparr>loopNo := 0, celNo := 2\<rparr>,
        test_state\<lparr>objects := (\<lambda>_ _. Reg 0 77)(Reg 1 0 := (\<lambda>_. Reg 0 77)(SEL_loop := Reg 0 0))\<rparr>)"
proof -
  let ?s = "test_state\<lparr>objects := (\<lambda>_ _. Reg 0 77)\<rparr>"
  let ?it = "(cast_entry 0 10 5 0)\<lparr>loopNo := - 1, celNo := 9\<rparr>"
  obtain it' s' where run: "adjustInvalidCels plain_view ?it ?s = (it', s')"
    by (cases "adjustInvalidCels plain_view ?it ?s")
  have lc: "0 \<le>s getLoopCount plain_view" and cc: "0 \<le>s getCelCount plain_view (loopNo it')"
    by (simp_all add: plain_view_def word_sle_eq)
  from adjustInvalidCels_resolves [OF run lc cc]
  have "loopNo it' = 3"
    by (simp add: cast_entry_def plain_view_def word_sless_alt word_sle_eq)
  then show ?thesis
    by (simp add: adjustInvalidCels_def cast_entry_def plain_view_def test_state_def
        writeSelectorValue_def writeSelector_def make_reg_def word_sless_alt word_sle_eq
        Let_def)
qed

subsection \<open>Global scaling\<close>

lemma sint_to_int16: "sint (to_int16 i) = signed_take_bit 15 i"
  by (simp add: to_int16_def sint_sbintrunc')

lemma sdiv_nonneg: "0 \<le> a \<Longrightarrow> 0 < b \<Longrightarrow> a sdiv b = a div (b::int)"
  by (cases "a = 0") (simp_all add: signed_divide_int_def sgn_if)

lemma stb_id: "0 \<le> k \<Longrightarrow> k < 32768 \<Longrightarrow> signed_take_bit 15 k = (k::int)"
  by (rule signed_take_bit_int_eq_self) simp_all

lemma word16_eq_0_iff_sint: "(w :: 16 word) = 0 \<longleftrightarrow> sint w = 0"
  by (simp add: signed_eq_0_iff)

lemma to_int16_eq_0: "to_int16 i = 0 \<longleftrightarrow> signed_take_bit 15 i = 0"
  using word16_eq_0_iff_sint [of "to_int16 i"] by (simp add: sint_to_int16)

text \<open>
  C5, as the code has it. For an entry whose scale signal has DoScaling and GlobalScaling
  on a scaleable view, \<^verbatim>\<open>processViewScaling\<close> computes, from the 16-bit signed readings,
  \<open>maxCelHeight = \<lfloor>maxScale * celHeight / 128\<rfloor>\<close>, \<open>fixedPortY = portBottom - vanishingY\<close>
  and \<open>fixedEntryY = entry.y - vanishingY\<close> with 0 replaced by 1, each stored in 16 bits;
  it fails with the panic exactly when \<open>celHeight\<close> or \<open>fixedPortY\<close> is 0; otherwise
  \<open>scaleY\<close> is \<open>(maxCelHeight * fixedEntryY) / fixedPortY\<close>, stored in 16 bits, times 128,
  divided by \<open>celHeight\<close>, both divisions truncating towards zero, \<open>scaleX\<close> is the same
  value, and both are written to the object. Where the operands are not negative and
  nothing leaves the 16-bit range, this is the rounded-down value \<open>scaleY_spec\<close>.
\<close>

theorem applyGlobalScaling_computes:
  assumes sc: "tst (scaleSignal entry) kScaleSignalDoScaling"
      "tst (scaleSignal entry) kScaleSignalGlobalScaling" "isScaleable v"
    and ms: "maxScale = sint (readSelectorValue s (object entry) SEL_maxScale)"
    and ch: "celHeight = sint (getHeight v (loopNo entry) (celNo entry))"
    and vy: "vanishingY = sint (readSelectorValue s (globalCurrentRoom s) SEL_vanishingY)"
    and pb: "portBottom = sint (r_bottom (port_rect (curPort s)))"
    and mch: "maxCelHeight = signed_take_bit 15 (maxScale * celHeight div 128)"
    and fpy: "fixedPortY = signed_take_bit 15 (portBottom - vanishingY)"
    and fey: "fixedEntryY = (if signed_take_bit 15 (sint (entry_y entry) - vanishingY) = 0 then 1
                            else signed_take_bit 15 (sint (entry_y entry) - vanishingY))"
    and sy: "sy = to_int16 (signed_take_bit 15 (maxCelHeight * fixedEntryY sdiv fixedPortY) * 128
                     sdiv celHeight)"
  shows "processViewScaling v entry s =
           (if celHeight = 0 \<or> fixedPortY = 0 then Inl GlobalScalingPanic
            else Inr (entry\<lparr>scaleY := sy, scaleX := sy\<rparr>,
                      writeSelectorValue (object entry) SEL_scaleY sy
                        (writeSelectorValue (object entry) SEL_scaleX sy s)))
       \<and> (0 \<le> maxScale \<and> 0 < celHeight \<and> maxScale * celHeight div 128 < 32768
            \<and> 0 < portBottom - vanishingY \<and> portBottom - vanishingY < 32768
            \<and> 0 \<le> sint (entry_y entry) - vanishingY \<and> sint (entry_y entry) - vanishingY < 32768
            \<and> scaleY_spec maxScale celHeight vanishingY portBottom (sint (entry_y entry)) < 32768
            \<and> maxCelHeight * fixedEntryY div fixedPortY < 32768
          \<longrightarrow> sint sy = scaleY_spec maxScale celHeight vanishingY portBottom (sint (entry_y entry)))"
proof -
  let ?wch = "getHeight v (loopNo entry) (celNo entry)"
  let ?wmch = "to_int16 (drop_bit 7 (sint (readSelectorValue s (object entry) SEL_maxScale) * sint ?wch))"
  let ?wfpy = "to_int16 (sint (r_bottom (port_rect (curPort s)))
                 - sint (readSelectorValue s (globalCurrentRoom s) SEL_vanishingY))"
  let ?wfe0 = "to_int16 (sint (entry_y entry)
                 - sint (readSelectorValue s (globalCurrentRoom s) SEL_vanishingY))"
  let ?wfey = "if ?wfe0 = 0 then 1 else ?wfe0"
  let ?wsy = "to_int16 (sint (to_int16 (sint ?wmch * sint ?wfey sdiv sint ?wfpy)) * 128 sdiv sint ?wch)"
  have m: "sint ?wmch = maxCelHeight"
    by (simp add: sint_to_int16 mch ms ch drop_bit_eq_div)
  have p: "sint ?wfpy = fixedPortY"
    by (simp add: sint_to_int16 fpy pb vy)
  have p0: "?wfpy = 0 \<longleftrightarrow> fixedPortY = 0"
    using word16_eq_0_iff_sint [of ?wfpy] by (simp only: p)
  have c0: "?wch = 0 \<longleftrightarrow> celHeight = 0"
    using word16_eq_0_iff_sint [of ?wch] by (simp only: ch)
  have e: "sint ?wfey = fixedEntryY"
    by (simp add: fey vy to_int16_eq_0 sint_to_int16)
  have y: "?wsy = sy"
    unfolding m p e by (simp only: sy sint_to_int16 ch)
  have "applyGlobalScaling v entry s =
          (if ?wch = 0 \<or> ?wfpy = 0 then Inl GlobalScalingPanic
           else Inr (entry\<lparr>scaleY := ?wsy, scaleX := ?wsy\<rparr>,
                     writeSelectorValue (object entry) SEL_scaleY ?wsy
                       (writeSelectorValue (object entry) SEL_scaleX ?wsy s)))"
    by (simp add: applyGlobalScaling_def Let_def)
  then have "applyGlobalScaling v entry s =
           (if celHeight = 0 \<or> fixedPortY = 0 then Inl GlobalScalingPanic
            else Inr (entry\<lparr>scaleY := sy, scaleX := sy\<rparr>,
                      writeSelectorValue (object entry) SEL_scaleY sy
                        (writeSelectorValue (object entry) SEL_scaleX sy s)))"
    by (simp only: y p0 c0)
  with sc have run: "processViewScaling v entry s =
           (if celHeight = 0 \<or> fixedPortY = 0 then Inl GlobalScalingPanic
            else Inr (entry\<lparr>scaleY := sy, scaleX := sy\<rparr>,
                      writeSelectorValue (object entry) SEL_scaleY sy
                        (writeSelectorValue (object entry) SEL_scaleX sy s)))"
    by (simp only: processViewScaling_def if_True if_False not_True_eq_False)
  have fl: "sint sy = scaleY_spec maxScale celHeight vanishingY portBottom (sint (entry_y entry))"
    if a: "0 \<le> maxScale" "0 < celHeight" "maxScale * celHeight div 128 < 32768"
      "0 < portBottom - vanishingY" "portBottom - vanishingY < 32768"
      "0 \<le> sint (entry_y entry) - vanishingY" "sint (entry_y entry) - vanishingY < 32768"
      "scaleY_spec maxScale celHeight vanishingY portBottom (sint (entry_y entry)) < 32768"
      "maxCelHeight * fixedEntryY div fixedPortY < 32768"
  proof -
    let ?A = "maxScale * celHeight div 128"
    let ?P = "portBottom - vanishingY"
    let ?E0 = "sint (entry_y entry) - vanishingY"
    let ?E = "if ?E0 = 0 then 1 else ?E0"
    have A0: "0 \<le> ?A" using a(1,2) by (simp add: pos_imp_zdiv_nonneg_iff)
    have mA: "maxCelHeight = ?A" using A0 a(3) by (simp add: mch stb_id)
    have fP: "fixedPortY = ?P" using a(4,5) by (simp add: fpy stb_id)
    have fE: "fixedEntryY = ?E" using a(6,7) by (simp add: fey stb_id)
    have E0: "0 \<le> ?E" using a(6) by simp
    have q1: "0 \<le> ?A * ?E" using A0 E0 by simp
    have Q1: "0 \<le> ?A * ?E div ?P" using q1 a(4) by (simp add: pos_imp_zdiv_nonneg_iff)
    have s1: "maxCelHeight * fixedEntryY sdiv fixedPortY = ?A * ?E div ?P"
      unfolding mA fP fE using q1 a(4) by (rule sdiv_nonneg)
    have r1: "signed_take_bit 15 (?A * ?E div ?P) = ?A * ?E div ?P"
      using Q1 a(9) by (simp add: stb_id mA fP fE)
    have q2: "0 \<le> (?A * ?E div ?P) * 128" using Q1 by simp
    have s2: "(?A * ?E div ?P) * 128 sdiv celHeight = (?A * ?E div ?P) * 128 div celHeight"
      using q2 a(2) by (rule sdiv_nonneg)
    have Q2: "0 \<le> (?A * ?E div ?P) * 128 div celHeight"
      using q2 a(2) by (simp add: pos_imp_zdiv_nonneg_iff)
    have spec: "scaleY_spec maxScale celHeight vanishingY portBottom (sint (entry_y entry))
                  = (?A * ?E div ?P) * 128 div celHeight"
      by (simp add: scaleY_spec_def Let_def)
    have "sint sy = signed_take_bit 15 ((?A * ?E div ?P) * 128 div celHeight)"
      by (simp only: sy sint_to_int16 s1 r1 s2)
    also have "\<dots> = (?A * ?E div ?P) * 128 div celHeight"
      using Q2 a(8) by (simp only: spec stb_id)
    finally show ?thesis by (simp only: spec)
  qed
  from run fl show ?thesis by blast
qed

text \<open>
  The rounding down of C5 fails for an entry above the vanishing point: at \<open>entry.y = 99\<close>
  (\<open>fixedEntryY = -1\<close>) the code's quotient \<open>-40 / 100\<close> is 0 and the scale is 0, where
  rounding down gives -1 and the scale -4.
\<close>

theorem applyGlobalScaling_floor_counterexample:
  "tst (scaleSignal (scaling_entry 99)) kScaleSignalDoScaling
   \<and> tst (scaleSignal (scaling_entry 99)) kScaleSignalGlobalScaling
   \<and> isScaleable plain_view
   \<and> processViewScaling plain_view (scaling_entry 99) scaling_state
       = Inr ((scaling_entry 99)\<lparr>scaleY := 0, scaleX := 0\<rparr>,
              writeSelectorValue (Reg 1 0) SEL_scaleY 0
                (writeSelectorValue (Reg 1 0) SEL_scaleX 0 scaling_state))
   \<and> scaleY_spec 128 40 100 200 99 = - 4"
  by (simp add: processViewScaling_def applyGlobalScaling_def scaling_entry_def scaling_state_def
      cast_entry_def test_state_def plain_view_def pic_port_def readSelectorValue_def
      readSelector_def tst_def scale_signal_defs to_int16_def signed_divide_int_def
      scaleY_spec_def Let_def)

text \<open>The example of the specification: \<open>entry.y = 150\<close> gives 64 for both scales.\<close>

theorem applyGlobalScaling_computes_witness:
  "processViewScaling plain_view (scaling_entry 150) scaling_state
       = Inr ((scaling_entry 150)\<lparr>scaleY := 64, scaleX := 64\<rparr>,
              writeSelectorValue (Reg 1 0) SEL_scaleY 64
                (writeSelectorValue (Reg 1 0) SEL_scaleX 64 scaling_state))
   \<and> scaleY_spec 128 40 100 200 150 = 64"
proof -
  have sc: "tst (scaleSignal (scaling_entry 150)) kScaleSignalDoScaling"
    "tst (scaleSignal (scaling_entry 150)) kScaleSignalGlobalScaling" "isScaleable plain_view"
    by (simp_all add: scaling_entry_def cast_entry_def plain_view_def tst_def scale_signal_defs)
  from applyGlobalScaling_computes [OF sc refl refl refl refl refl refl refl refl,
      of scaling_state]
  show ?thesis
    by (simp add: scaling_entry_def scaling_state_def cast_entry_def test_state_def
        plain_view_def pic_port_def readSelectorValue_def readSelector_def to_int16_def
        signed_divide_int_def scaleY_spec_def Let_def)
qed

subsection \<open>Sorting\<close>

lemma mset_sort_insert: "mset (sort_insert cmp v ws) = add_mset v (mset ws)"
  by (induction ws) simp_all

lemma mset_common_sort: "mset (common_sort cmp vs) = mset vs"
  by (induction vs) (simp_all add: common_sort_def mset_sort_insert)

lemma set_sort_insert: "set (sort_insert cmp v ws) = insert v (set ws)"
  by (induction ws) auto

lemma sorted_sort_insert:
  assumes asym: "\<And>a b. cmp a b \<Longrightarrow> \<not> cmp b a"
    and negtrans: "\<And>a b c. \<not> cmp a b \<Longrightarrow> \<not> cmp b c \<Longrightarrow> \<not> cmp a c"
  shows "sorted_wrt (\<lambda>a b. \<not> cmp b a) ws \<Longrightarrow> sorted_wrt (\<lambda>a b. \<not> cmp b a) (sort_insert cmp v ws)"
proof (induction ws)
  case Nil
  then show ?case by simp
next
  case (Cons w ws)
  show ?case
  proof (cases "cmp w v")
    case True
    with Cons asym show ?thesis by (auto simp: set_sort_insert)
  next
    case False
    with Cons.prems negtrans show ?thesis by auto
  qed
qed

lemma sorted_common_sort:
  assumes asym: "\<And>a b. cmp a b \<Longrightarrow> \<not> cmp b a"
    and negtrans: "\<And>a b c. \<not> cmp a b \<Longrightarrow> \<not> cmp b c \<Longrightarrow> \<not> cmp a c"
  shows "sorted_wrt (\<lambda>a b. \<not> cmp b a) (common_sort cmp vs)"
proof (induction vs)
  case Nil
  then show ?case by (simp add: common_sort_def)
next
  case (Cons v vs)
  have "common_sort cmp (v # vs) = sort_insert cmp v (common_sort cmp vs)"
    by (simp add: common_sort_def)
  with Cons sorted_sort_insert [where cmp = cmp, OF asym negtrans] show ?case by simp
qed

lemma sortHelper_alt:
  "sortHelper a b \<longleftrightarrow>
     sint (entry_y a) < sint (entry_y b)
     \<or> (entry_y a = entry_y b \<and>
          (sint (entry_z a) < sint (entry_z b)
           \<or> (entry_z a = entry_z b \<and> sint (givenOrderNo a) < sint (givenOrderNo b))))"
  by (auto simp: sortHelper_def word_sless_alt)

lemma sortHelper_asym: "sortHelper a b \<Longrightarrow> \<not> sortHelper b a"
  by (auto simp: sortHelper_alt)

lemma sint16_eq: "sint (a :: 16 word) = sint b \<longleftrightarrow> a = b"
  using word_eq_iff_signed [where ?'a = int, of a b] by simp

lemma sortHelper_negtrans: "\<not> sortHelper a b \<Longrightarrow> \<not> sortHelper b c \<Longrightarrow> \<not> sortHelper a c"
proof -
  assume 1: "\<not> sortHelper a b" and 2: "\<not> sortHelper b c"
  have e: "x = y \<longleftrightarrow> sint x = sint y" for x y :: "16 word"
    by (simp add: sint16_eq)
  show ?thesis
    using 1 2 unfolding sortHelper_alt e [of "entry_y _" "entry_y _"] e [of "entry_z _" "entry_z _"]
    by linarith
qed

lemma sortHelper_total:
  "\<not> sortHelper b a \<Longrightarrow> givenOrderNo a \<noteq> givenOrderNo b \<Longrightarrow> sortHelper a b"
proof -
  assume 1: "\<not> sortHelper b a" and 2: "givenOrderNo a \<noteq> givenOrderNo b"
  have e: "x = y \<longleftrightarrow> sint x = sint y" for x y :: "16 word"
    by (simp add: sint16_eq)
  from 2 have 3: "sint (givenOrderNo a) \<noteq> sint (givenOrderNo b)" by (simp add: sint16_eq)
  show ?thesis
    using 1 3 unfolding sortHelper_alt e [of "entry_y _" "entry_y _"] e [of "entry_z _" "entry_z _"]
    by linarith
qed

lemma sorted_sortHelper: "sorted_wrt (\<lambda>a b. \<not> sortHelper b a) (common_sort sortHelper vs)"
proof (rule sorted_common_sort)
  show "\<not> sortHelper b a" if "sortHelper a b" for a b
    using that by (rule sortHelper_asym)
  show "\<not> sortHelper a c" if "\<not> sortHelper a b" "\<not> sortHelper b c" for a b c
    using that by (rule sortHelper_negtrans)
qed

lemma sorted_wrt_strict:
  "sorted_wrt (\<lambda>a b. \<not> sortHelper b a) xs \<Longrightarrow> distinct (map givenOrderNo xs) \<Longrightarrow>
     sorted_wrt sortHelper xs"
  by (induction xs) (auto intro: sortHelper_total)

lemma sorted_wrt_mset_unique:
  assumes asym: "\<And>a b. R a b \<Longrightarrow> \<not> R b a"
  shows "sorted_wrt R xs \<Longrightarrow> sorted_wrt R ys \<Longrightarrow> mset xs = mset ys \<Longrightarrow> xs = ys"
proof (induction xs arbitrary: ys)
  case Nil
  then show ?case by simp
next
  case (Cons x xs)
  from Cons.prems(3) obtain y ys' where ys: "ys = y # ys'" by (cases ys) auto
  have "x = y"
  proof (rule ccontr)
    assume ne: "x \<noteq> y"
    from Cons.prems(3) ys have "x \<in> set (y # ys')" by (metis list.set_intros(1) mset_eq_setD)
    with ne have "x \<in> set ys'" by simp
    with Cons.prems(2) ys have 1: "R y x" by simp
    from Cons.prems(3) ys have "y \<in> set (x # xs)" by (metis list.set_intros(1) mset_eq_setD)
    with ne have "y \<in> set xs" by simp
    with Cons.prems(1) have "R x y" by simp
    with 1 asym show False by blast
  qed
  moreover from this Cons.prems(3) ys have "mset xs = mset ys'" by simp
  moreover from Cons.prems ys have "sorted_wrt R xs" "sorted_wrt R ys'" by simp_all
  ultimately show ?case using Cons.IH ys by blast
qed

lemma node_chain_lookup: "node_chain s addr objs \<Longrightarrow> \<exists>nx. lookupNode s addr True = Inr nx"
  by (cases objs) (auto simp: lookupNode_def split: option.splits)

lemma fillList_chain:
  "node_chain s addr objs \<Longrightarrow> lookupNode s addr True = Inr curNode \<Longrightarrow>
     fillList en s curNode n acc = Some (Inr (acc @ traversal en s objs n))"
proof (induction objs arbitrary: addr curNode n acc)
  case Nil
  then have "curNode = None" by (simp add: lookupNode_def)
  then show ?case by (simp add: fillList.simps)
next
  case (Cons obj objs)
  from Cons.prems(1) obtain nd where nn: "\<not> isNull addr" and nd: "nodes s addr = Some nd"
    and v: "nvalue nd = obj" and ch: "node_chain s (succ nd) objs"
    by (auto split: option.splits)
  from Cons.prems(2) nn nd have cur: "curNode = Some nd" by (simp add: lookupNode_def)
  from node_chain_lookup [OF ch] obtain nx where nx: "lookupNode s (succ nd) True = Inr nx" ..
  from Cons.IH [OF ch nx]
  have "fillList en s nx (n + 1) (acc @ [readEntry en s obj n])
          = Some (Inr ((acc @ [readEntry en s obj n]) @ traversal en s objs (n + 1)))" .
  then show ?case
    by (subst fillList.simps) (simp add: cur nx v)
qed

lemma makeSortedList_chain:
  assumes "node_chain s (first lst) objs"
  shows "makeSortedList en (Some lst) s
           = Some (Inr (s\<lparr>alist := common_sort sortHelper (traversal en s objs 0),
                          lastCastData := []\<rparr>))"
proof -
  from node_chain_lookup [OF assms] obtain nx where nx: "lookupNode s (first lst) True = Inr nx" ..
  from fillList_chain [OF assms nx, of en 0 "[]"] nx show ?thesis
    by (simp add: makeSortedList_def)
qed

lemma length_traversal: "length (traversal en s objs n) = length objs"
  by (induction objs arbitrary: n) simp_all

lemma traversal_nth:
  "i < length objs \<Longrightarrow> traversal en s objs n ! i = readEntry en s (objs ! i) (n + word_of_nat i)"
proof (induction objs arbitrary: n i)
  case Nil
  then show ?case by simp
next
  case (Cons obj objs)
  show ?case
  proof (cases i)
    case 0
    then show ?thesis by simp
  next
    case (Suc j)
    with Cons.prems have "j < length objs" by simp
    from Cons.IH [OF this, of "n + 1"] Suc show ?thesis by (simp add: add.assoc)
  qed
qed

lemma givenOrderNo_readEntry: "givenOrderNo (readEntry en s obj n) = n"
  by (simp add: readEntry_def Let_def)

lemma sint_word_of_nat_16:
  "i < 32768 \<Longrightarrow> sint (word_of_nat i :: 16 word) = int i"
proof -
  assume "i < 32768"
  then have "signed_take_bit 15 (int i) = int i"
    by (intro signed_take_bit_int_eq_self) simp_all
  then show ?thesis
    using sint_sbintrunc' [where ?'a = 16, of "int i"] by simp
qed

lemma traversal_order_sorted:
  assumes "length objs \<le> 32768"
  shows "sorted_wrt (\<lambda>a b. sint (givenOrderNo a) < sint (givenOrderNo b)) (traversal en s objs 0)"
proof -
  have "sint (givenOrderNo (traversal en s objs 0 ! i)) < sint (givenOrderNo (traversal en s objs 0 ! j))"
    if "i < j" "j < length (traversal en s objs 0)" for i j
  proof -
    from that assms have b: "i < 32768" "j < 32768" "i < length objs" "j < length objs"
      by (simp_all add: length_traversal)
    then show ?thesis using that
      by (simp add: traversal_nth givenOrderNo_readEntry sint_word_of_nat_16)
  qed
  then show ?thesis by (simp add: sorted_wrt_iff_nth_less)
qed

lemma sorted_wrt_neq_distinct:
  "sorted_wrt (\<lambda>a b. f a \<noteq> f b) xs \<Longrightarrow> distinct (map f xs)"
  by (induction xs) auto

lemma traversal_order_distinct:
  assumes "length objs \<le> 32768"
  shows "distinct (map givenOrderNo (traversal en s objs 0))"
proof -
  from traversal_order_sorted [OF assms, of en s]
  have "sorted_wrt (\<lambda>a b. givenOrderNo a \<noteq> givenOrderNo b) (traversal en s objs 0)"
    by (rule sorted_wrt_mono_rel [rotated]) auto
  then show ?thesis by (rule sorted_wrt_neq_distinct)
qed


lemma traversal_same_depth_sorted:
  assumes "length objs \<le> 32768"
  shows "sorted_wrt sortHelper
           (filter (\<lambda>e. entry_y e = py \<and> entry_z e = pz) (traversal en s objs 0))"
proof -
  from traversal_order_sorted [OF assms, of en s]
  have "sorted_wrt (\<lambda>a b. sint (givenOrderNo a) < sint (givenOrderNo b))
          (filter (\<lambda>e. entry_y e = py \<and> entry_z e = pz) (traversal en s objs 0))"
    by (rule sorted_wrt_filter)
  then show ?thesis
    by (rule sorted_wrt_mono_rel [rotated]) (auto simp: sortHelper_alt)
qed

text \<open>
  On a well-formed list \<^verbatim>\<open>makeSortedList\<close> returns, and its list is a permutation of
  the entries in traversal order (nothing dropped or duplicated, the size kept) in which no entry comes after one that the comparator \<^verbatim>\<open>sortHelper\<close> puts
  behind it; the comparator orders by \<open>y\<close>, at equal \<open>y\<close> by \<open>z\<close>, at equal \<open>y\<close> and \<open>z\<close>
  by \<open>givenOrderNo\<close>, all read as signed 16-bit values. For a list of at most 32768 nodes
  \<open>givenOrderNo\<close> is the position in the traversal, the output is strictly ascending
  under the comparator, and the entries of any one depth \<open>(y, z)\<close> appear in the output in
  their traversal order.
\<close>

lemma makeSortedList_sorted:
  assumes ch: "node_chain s (first lst) objs"
  shows "\<exists>es. makeSortedList en (Some lst) s = Some (Inr (s\<lparr>alist := es, lastCastData := []\<rparr>))
       \<and> mset es = mset (traversal en s objs 0) \<and> length es = length objs
       \<and> sorted_wrt (\<lambda>a b. \<not> sortHelper b a) es
       \<and> (\<forall>a b. sortHelper a b \<longleftrightarrow>
             entry_y a <s entry_y b
             \<or> (entry_y a = entry_y b \<and>
                  (entry_z a <s entry_z b
                   \<or> (entry_z a = entry_z b \<and> givenOrderNo a <s givenOrderNo b))))
       \<and> (length objs \<le> 32768 \<longrightarrow>
            sorted_wrt sortHelper es
            \<and> (\<forall>i<length objs. object (traversal en s objs 0 ! i) = objs ! i
                  \<and> sint (givenOrderNo (traversal en s objs 0 ! i)) = int i)
            \<and> (\<forall>py pz. filter (\<lambda>e. entry_y e = py \<and> entry_z e = pz) es
                  = filter (\<lambda>e. entry_y e = py \<and> entry_z e = pz) (traversal en s objs 0)))"
proof -
  let ?tr = "traversal en s objs 0"
  let ?es = "common_sort sortHelper ?tr"
  have run: "makeSortedList en (Some lst) s = Some (Inr (s\<lparr>alist := ?es, lastCastData := []\<rparr>))"
    by (rule makeSortedList_chain [OF ch])
  have ms: "mset ?es = mset ?tr" by (rule mset_common_sort)
  then have len: "length ?es = length objs"
    by (metis length_traversal size_mset)
  have srt: "sorted_wrt (\<lambda>a b. \<not> sortHelper b a) ?es" by (rule sorted_sortHelper)
  have cmp: "\<forall>a b. sortHelper a b \<longleftrightarrow>
             entry_y a <s entry_y b
             \<or> (entry_y a = entry_y b \<and>
                  (entry_z a <s entry_z b
                   \<or> (entry_z a = entry_z b \<and> givenOrderNo a <s givenOrderNo b)))"
    by (auto simp: sortHelper_def)
  have small: "sorted_wrt sortHelper ?es
            \<and> (\<forall>i<length objs. object (?tr ! i) = objs ! i \<and> sint (givenOrderNo (?tr ! i)) = int i)
            \<and> (\<forall>py pz. filter (\<lambda>e. entry_y e = py \<and> entry_z e = pz) ?es
                  = filter (\<lambda>e. entry_y e = py \<and> entry_z e = pz) ?tr)"
    if le: "length objs \<le> 32768"
  proof -
    have "mset (map givenOrderNo ?es) = mset (map givenOrderNo ?tr)"
      using ms by simp
    with traversal_order_distinct [OF le, of en s]
    have "distinct (map givenOrderNo ?es)"
      by (metis mset_eq_imp_distinct_iff)
    with srt have strict: "sorted_wrt sortHelper ?es" by (rule sorted_wrt_strict)
    have idx: "object (?tr ! i) = objs ! i \<and> sint (givenOrderNo (?tr ! i)) = int i"
      if "i < length objs" for i
      using that le
      by (simp add: traversal_nth givenOrderNo_readEntry sint_word_of_nat_16 readEntry_def Let_def)
    have stable: "filter (\<lambda>e. entry_y e = py \<and> entry_z e = pz) ?es
                  = filter (\<lambda>e. entry_y e = py \<and> entry_z e = pz) ?tr" for py pz
    proof (rule sorted_wrt_mset_unique [where R = sortHelper])
      show "\<not> sortHelper b a" if "sortHelper a b" for a b
        using that by (rule sortHelper_asym)
      show "sorted_wrt sortHelper (filter (\<lambda>e. entry_y e = py \<and> entry_z e = pz) ?es)"
        using strict by (rule sorted_wrt_filter)
      show "sorted_wrt sortHelper (filter (\<lambda>e. entry_y e = py \<and> entry_z e = pz) ?tr)"
        by (rule traversal_same_depth_sorted [OF le])
      show "mset (filter (\<lambda>e. entry_y e = py \<and> entry_z e = pz) ?es)
              = mset (filter (\<lambda>e. entry_y e = py \<and> entry_z e = pz) ?tr)"
        using ms by (simp add: mset_filter)
    qed
    from strict idx stable show ?thesis by blast
  qed
  from run ms len srt cmp small show ?thesis by blast
qed

text \<open>
  Four objects in the order 1, 2, 3, 4, the first deeper than the others, which share
  their depth: they are sorted to 2, 3, 4, 1.
\<close>

lemma makeSortedList_sorted_cast:
  "node_chain cast_state (first cast_list) [Reg 1 1, Reg 1 2, Reg 1 3, Reg 1 4]
   \<and> cast_order test_env cast_list cast_state = [Reg 1 2, Reg 1 3, Reg 1 4, Reg 1 1]"
proof -
  have ch: "node_chain cast_state (first cast_list) [Reg 1 1, Reg 1 2, Reg 1 3, Reg 1 4]"
    by (simp add: cast_state_def cast_list_def test_state_def isNull_def NULL_REG_def)
  from makeSortedList_sorted [OF ch, of test_env]
  obtain es where run: "makeSortedList test_env (Some cast_list) cast_state
        = Some (Inr (cast_state\<lparr>alist := es, lastCastData := []\<rparr>))"
    and strict: "sorted_wrt sortHelper es"
    and st: "filter (\<lambda>e. entry_y e = 10 \<and> entry_z e = 5) es
           = filter (\<lambda>e. entry_y e = 10 \<and> entry_z e = 5)
               (traversal test_env cast_state [Reg 1 1, Reg 1 2, Reg 1 3, Reg 1 4] 0)"
    by auto
  from run have "cast_order test_env cast_list cast_state = map object es"
    by (simp add: cast_order_def)
  moreover have "es = common_sort sortHelper
      (traversal test_env cast_state [Reg 1 1, Reg 1 2, Reg 1 3, Reg 1 4] 0)"
  proof -
    from run makeSortedList_chain [OF ch, of test_env]
    have "cast_state\<lparr>alist := es, lastCastData := []\<rparr>
        = cast_state\<lparr>alist := common_sort sortHelper
            (traversal test_env cast_state [Reg 1 1, Reg 1 2, Reg 1 3, Reg 1 4] 0),
            lastCastData := []\<rparr>"
      by simp
    then have "alist (cast_state\<lparr>alist := es, lastCastData := []\<rparr>)
        = alist (cast_state\<lparr>alist := common_sort sortHelper
            (traversal test_env cast_state [Reg 1 1, Reg 1 2, Reg 1 3, Reg 1 4] 0),
            lastCastData := []\<rparr>)"
      by (rule arg_cong)
    then show ?thesis by simp
  qed
  moreover have "map object (common_sort sortHelper
      (traversal test_env cast_state [Reg 1 1, Reg 1 2, Reg 1 3, Reg 1 4] 0))
      = [Reg 1 2, Reg 1 3, Reg 1 4, Reg 1 1]"
    by (simp add: common_sort_def sortHelper_def readEntry_def readSelectorValue_def
        readSelector_def cast_state_def test_state_def test_env_def Let_def word_sless_alt)
  ultimately show ?thesis using ch by simp
qed


lemma unat_word16_of_nat: "k < 65536 \<Longrightarrow> unat (word_of_nat k :: 16 word) = k"
  by (simp add: unat_of_nat)

lemma long_chain:
  "1 \<le> k \<Longrightarrow> k + m = 32769 \<Longrightarrow>
     node_chain long_state (Reg 3 (word_of_nat k))
       (map (\<lambda>j. Reg 1 (word_of_nat j)) [k..<k + Suc m])"
proof (induction m arbitrary: k)
  case 0
  then have k: "k = 32769" by simp
  show ?case
    by (simp add: k long_state_def isNull_def NULL_REG_def)
next
  case (Suc m)
  then have k: "1 \<le> k" "k < 32769" "k < 65536" by simp_all
  have u: "unat (word_of_nat k :: 16 word) = k" by (rule unat_word16_of_nat [OF k(3)])
  have up: "[k..<k + Suc (Suc m)] = k # [Suc k..<Suc k + Suc m]"
    by (simp add: upt_conv_Cons)
  have nx: "(word_of_nat k :: 16 word) + 1 = word_of_nat (Suc k)" by simp
  from Suc.prems have "node_chain long_state (Reg 3 (word_of_nat (Suc k)))
       (map (\<lambda>j. Reg 1 (word_of_nat j)) [Suc k..<Suc k + Suc m])"
    by (intro Suc.IH) simp_all
  then show ?case
    unfolding up using k u
    by (simp add: long_state_def isNull_def NULL_REG_def nx del: upt_Suc of_nat_Suc)
qed

lemma long_objs_chain: "node_chain long_state (first long_list) long_objs"
  using long_chain [of 1 32768] by (simp add: long_list_def long_objs_def)

lemma length_long_objs: "length long_objs = 32769"
  by (simp add: long_objs_def)

lemma long_entry_depth:
  "entry_y (readEntry test_env long_state obj n) = 0
   \<and> entry_z (readEntry test_env long_state obj n) = 0"
  by (simp add: readEntry_def Let_def readSelectorValue_def readSelector_def long_state_def
      test_state_def NULL_REG_def)

lemma long_traversal_nth:
  "i < 32769 \<Longrightarrow>
     traversal test_env long_state long_objs 0 ! i
       = readEntry test_env long_state (Reg 1 (word_of_nat (Suc i))) (word_of_nat i)"
  by (simp add: traversal_nth length_long_objs long_objs_def del: upt_Suc of_nat_Suc)

lemma long_depths: "depths (traversal test_env long_state long_objs 0) = {(0, 0)}"
proof -
  let ?tr = "traversal test_env long_state long_objs 0"
  have "(entry_y e, entry_z e) = (0, 0)" if "e \<in> set ?tr" for e
  proof -
    from that obtain i where "i < length ?tr" "e = ?tr ! i" by (auto simp: in_set_conv_nth)
    then show ?thesis
      by (simp add: length_traversal length_long_objs long_traversal_nth long_entry_depth)
  qed
  moreover have "?tr \<noteq> []"
    using length_traversal [of test_env long_state long_objs 0] length_long_objs by auto
  then obtain e where "e \<in> set ?tr" by (cases ?tr) auto
  ultimately have "(\<lambda>e. (entry_y e, entry_z e)) ` set ?tr = {(0, 0)}"
    by (intro equalityI subsetI) (auto simp: image_iff)
  then show ?thesis by (simp add: depths_def)
qed

lemma sorted_first_minimal:
  assumes "sorted_wrt (\<lambda>a b. \<not> sortHelper b a) es" "e \<in> set es"
  shows "\<not> sortHelper e (hd es)"
proof (cases es)
  case Nil
  with assms show ?thesis by simp
next
  case (Cons h t)
  with assms sortHelper_asym [of h h] show ?thesis by auto
qed

lemma long_cast_order:
  "length (cast_order test_env long_list long_state) = 32769
   \<and> hd (cast_order test_env long_list long_state) = Reg 1 32769"
proof -
  let ?tr = "traversal test_env long_state long_objs 0"
  let ?es = "common_sort sortHelper ?tr"
  let ?e = "?tr ! 32768"
  have co: "cast_order test_env long_list long_state = map object ?es"
    by (simp add: cast_order_def makeSortedList_chain [OF long_objs_chain])
  have ms: "mset ?es = mset ?tr" by (rule mset_common_sort)
  have lt: "length ?tr = 32769" by (simp add: length_traversal length_long_objs)
  from ms have len: "length ?es = 32769" by (metis lt size_mset)
  then have ne: "?es \<noteq> []" by auto
  have set_eq: "set ?es = set ?tr" using ms by (rule mset_eq_setD)
  have "?e \<in> set ?tr" using lt by simp
  then have ein: "?e \<in> set ?es" by (simp add: set_eq)
  have hin: "hd ?es \<in> set ?tr" using ne set_eq by (metis hd_in_set)
  then obtain j where j: "j < 32769" and h: "hd ?es = ?tr ! j"
    using lt by (auto simp: in_set_conv_nth)
  have hj: "hd ?es = readEntry test_env long_state (Reg 1 (word_of_nat (Suc j))) (word_of_nat j)"
    using j by (simp add: h long_traversal_nth)
  have ee: "?e = readEntry test_env long_state (Reg 1 (word_of_nat (Suc 32768))) (word_of_nat 32768)"
    by (rule long_traversal_nth) simp
  from sorted_first_minimal [OF sorted_sortHelper ein]
  have "\<not> sortHelper ?e (hd ?es)" .
  then have "\<not> sint (word_of_nat 32768 :: 16 word) < sint (word_of_nat j :: 16 word)"
    unfolding hj ee
    by (simp add: sortHelper_alt long_entry_depth givenOrderNo_readEntry del: of_nat_Suc)
  moreover have "sint (word_of_nat 32768 :: 16 word) = - 32768" by simp
  moreover have "- 32768 \<le> sint (word_of_nat j :: 16 word)"
    using sint_ge [of "word_of_nat j :: 16 word"] by simp
  ultimately have "sint (word_of_nat j :: 16 word) = sint (word_of_nat 32768 :: 16 word)"
    by linarith
  then have "(word_of_nat j :: 16 word) = word_of_nat 32768" by (simp only: sint16_eq)
  then have "unat (word_of_nat j :: 16 word) = unat (word_of_nat 32768 :: 16 word)" by simp
  with j have "j = 32768" by (simp add: unat_word16_of_nat)
  with hj have "object (hd ?es) = Reg 1 32769"
    by (simp add: readEntry_def Let_def)
  with ne len co show ?thesis by (simp add: hd_map)
qed

text \<open>
  C1. The comparator falls back on \<open>givenOrderNo\<close> so that entries of one depth keep the
  order they were given in, and \<open>givenOrderNo\<close> is the 16-bit counter \<open>listNr\<close>. On a
  well-formed list of 32769 nodes, every object at the depth \<open>(0, 0)\<close>, the counter wraps:
  the entry of the last node gets the order number -32768, and the object traversed last,
  not the one traversed first, is the first of the sorted list.
\<close>

theorem makeSortedList_long_list:
  "node_chain long_state (first long_list) long_objs
   \<and> depths (traversal test_env long_state long_objs 0) = {(0, 0)}
   \<and> length long_objs = 32769
   \<and> hd long_objs = Reg 1 1
   \<and> last long_objs = Reg 1 32769
   \<and> sint (givenOrderNo (last (traversal test_env long_state long_objs 0))) = - 32768
   \<and> length (cast_order test_env long_list long_state) = 32769
   \<and> hd (cast_order test_env long_list long_state) = Reg 1 32769"
proof -
  let ?tr = "traversal test_env long_state long_objs 0"
  have "hd long_objs = Reg 1 1"
    by (simp add: long_objs_def hd_map hd_upt)
  moreover have "last long_objs = Reg 1 32769"
    by (simp add: long_objs_def last_map)
  moreover have "sint (givenOrderNo (last ?tr)) = - 32768"
  proof -
    have len: "length ?tr = 32769" by (simp add: length_traversal length_long_objs)
    then have "?tr \<noteq> []" by auto
    from last_conv_nth [OF this] len have "last ?tr = ?tr ! 32768" by simp
    also have "\<dots> = readEntry test_env long_state (Reg 1 (word_of_nat (Suc 32768))) (word_of_nat 32768)"
      by (rule long_traversal_nth) simp
    finally show ?thesis by (simp add: givenOrderNo_readEntry del: of_nat_Suc)
  qed
  ultimately show ?thesis
    using long_objs_chain long_depths length_long_objs long_cast_order by simp
qed

subsection \<open>The invocation step and the early exits\<close>

lemma invoke_next_loop:
  "invoke_next en x y \<Longrightarrow>
     invoke_loop en (fst x) (fst (snd x)) (snd (snd x))
       = invoke_loop en (fst y) (fst (snd y)) (snd (snd y))"
proof (induction rule: invoke_next.induct)
  case (frozen s node nx a)
  then show ?case by (subst invoke_loop.simps) (auto simp: Let_def)
next
  case (gone s node s1 a)
  then show ?case by (subst invoke_loop.simps) (auto simp: Let_def)
next
  case (called s node s1 a node1 nx)
  then show ?case by (subst invoke_loop.simps) (auto simp: Let_def)
qed

lemma invoke_reach_loop:
  "(invoke_next en)\<^sup>*\<^sup>* x y \<Longrightarrow>
     invoke_loop en (fst x) (fst (snd x)) (snd (snd x))
       = invoke_loop en (fst y) (fst (snd y)) (snd (snd y))"
  by (induction rule: rtranclp_induct) (simp_all add: invoke_next_loop)

lemma invoke_reach:
  assumes "lookupNode s0 (first lst) True = Inr n0"
    and "(invoke_next en)\<^sup>*\<^sup>* (first lst, n0, s0) (a, n, t)"
  shows "invoke en lst s0 = invoke_loop en a n t"
  using assms(1) invoke_reach_loop [OF assms(2)] by (simp add: invoke_def)


lemma invoke_loop_fastcast:
  "fastCastEnabled en \<Longrightarrow> \<not> isNull (globalFastCast t) \<Longrightarrow>
     invoke_loop en a (Some node) t = Some (Inr (False, t))"
  by (subst invoke_loop.simps) (simp add: Let_def)





lemma kernelAnimate_cycle:
  assumes "\<not> isNull listReference"
    and "s0 = (let s1 = (if picNotValid s \<noteq> 0 then emit PalVaryDelay s else s)
               in if SCI_VERSION_1_1 \<le> sciVersion en then emit PalVaryUpdate s1 else s1)"
    and "lookupList s0 listReference = Some lst"
    and "invoke en lst s0 = Some (Inr (ok, t))"
  shows "kernelAnimate en listReference True s =
           (if \<not> ok then Some (Inr t)
            else kernelAnimate_frame en (lookupList t listReference) (picNotValid s) t)"
proof -
  have p: "picNotValid (emit c u) = picNotValid u" for c u
    by (simp add: emit_def)
  from assms show ?thesis
    by (auto simp: kernelAnimate_def Let_def p split: option.splits)
qed


text \<open>
  C10. If, at some test of \<open>curNode\<close> the walk of \<^verbatim>\<open>invoke\<close> reaches with a node, fast
  cast is enabled and the fast-cast global is not null, then \<^verbatim>\<open>invoke\<close> returns false with
  the state \<open>t\<close> of that moment and \<^verbatim>\<open>kernelAnimate\<close> returns that state: the port, the
  entry list, the last-cast snapshot, the screen, the trace of calls and every selector
  are as they were when the global was found set.
\<close>

theorem kernelAnimate_fastcast:
  assumes "\<not> isNull listReference"
    and "s0 = (let s1 = (if picNotValid s \<noteq> 0 then emit PalVaryDelay s else s)
               in if SCI_VERSION_1_1 \<le> sciVersion en then emit PalVaryUpdate s1 else s1)"
    and "lookupList s0 listReference = Some lst"
    and "lookupNode s0 (first lst) True = Inr n0"
    and "(invoke_next en)\<^sup>*\<^sup>* (first lst, n0, s0) (a, Some node, t)"
    and "fastCastEnabled en" and "\<not> isNull (globalFastCast t)"
  shows "invoke en lst s0 = Some (Inr (False, t))
       \<and> kernelAnimate en listReference True s = Some (Inr t)"
proof -
  have i: "invoke en lst s0 = Some (Inr (False, t))"
    using invoke_reach [OF assms(4,5)] invoke_loop_fastcast [OF assms(6,7)] by simp
  from kernelAnimate_cycle [OF assms(1,2,3) i] i show ?thesis by simp
qed



text \<open>
  The cast of four with a \<^verbatim>\<open>doit\<close> that sets the fast-cast global: the first object
  is invoked, the global is found set at the second node, and the call returns the state
  the first \<^verbatim>\<open>doit\<close> left.
\<close>

theorem kernelAnimate_fastcast_witness:
  "animate_trace fastcast_env (Reg 4 0) True cast_state = [PalVaryUpdate, InvokeDoit (Reg 1 1)]
   \<and> kernelAnimate fastcast_env (Reg 4 0) True cast_state
       = Some (Inr ((emit (InvokeDoit (Reg 1 1)) (emit PalVaryUpdate cast_state))
                      \<lparr>globalFastCast := Reg 1 9\<rparr>))"
proof -
  let ?s0 = "emit PalVaryUpdate cast_state"
  let ?n1 = "\<lparr> pred_n = NULL_REG, succ = Reg 3 2, nvalue = Reg 1 1 \<rparr>"
  let ?n2 = "\<lparr> pred_n = Reg 3 1, succ = Reg 3 3, nvalue = Reg 1 2 \<rparr>"
  let ?t = "(emit (InvokeDoit (Reg 1 1)) ?s0)\<lparr>globalFastCast := Reg 1 9\<rparr>"
  have 1: "\<not> isNull (Reg 4 0)" by (simp add: isNull_def NULL_REG_def)
  have 2: "?s0 = (let s1 = (if picNotValid cast_state \<noteq> 0 then emit PalVaryDelay cast_state
                             else cast_state)
                  in if SCI_VERSION_1_1 \<le> sciVersion fastcast_env then emit PalVaryUpdate s1 else s1)"
    by (simp add: fastcast_env_def test_env_def cast_state_def test_state_def)
  have 3: "lookupList ?s0 (Reg 4 0) = Some cast_list"
    by (simp add: lookupList_def emit_def cast_state_def)
  have 4: "lookupNode ?s0 (first cast_list) True = Inr (Some ?n1)"
    by (simp add: lookupNode_def emit_def cast_state_def cast_list_def isNull_def NULL_REG_def)
  have "invoke_next fastcast_env (first cast_list, Some ?n1, ?s0) (succ ?n1, Some ?n2, ?t)"
    by (rule invoke_next.called [where ?node1.0 = ?n1])
      (simp_all add: fastcast_env_def test_env_def cast_state_def test_state_def cast_list_def
        emit_def lookupNode_def isNull_def NULL_REG_def readSelectorValue_def readSelector_def
        tst_def signal_defs)
  then have 5: "(invoke_next fastcast_env)\<^sup>*\<^sup>* (first cast_list, Some ?n1, ?s0) (Reg 3 2, Some ?n2, ?t)"
    by simp
  have 6: "fastCastEnabled fastcast_env" by (simp add: fastcast_env_def test_env_def)
  have 7: "\<not> isNull (globalFastCast ?t)" by (simp add: isNull_def NULL_REG_def)
  from kernelAnimate_fastcast [OF 1 2 3 4 5 6 7]
  have k: "kernelAnimate fastcast_env (Reg 4 0) True cast_state = Some (Inr ?t)" by simp
  then show ?thesis
    by (simp add: animate_trace_def emit_def cast_state_def test_state_def)
qed





end
